theory Spec2Isabelle
  imports Main
begin

section \<open>Errors\<close>

text \<open>
  The client rejects promises with two kinds of error objects: a plain \<open>Error\<close> with a
  message (\<open>new Error('Context closed')\<close>, or whatever a channel call was answered with) and
  the \<open>TimeoutError\<close> the waiter raises. The time-out message of \<open>waitForEvent\<close>,
  \<open>Timeout ${timeout}ms exceeded while waiting for event "${event}"\<close>, is kept as its two
  parts, the time-out in milliseconds and the event name.
\<close>

datatype error = Error string | TimeoutError nat string

section \<open>The route chain of a browser context\<close>

subsection \<open>Route handlers\<close>

text \<open>
  \<open>this._routes\<close> is an array of references to \<open>RouteHandler\<close> objects. The snapshot
  \<open>this._routes.slice()\<close> of \<open>_onRoute\<close> copies the references, not the objects, so the
  objects live in a store and the chain holds their addresses. An address is the position of the
  object in the store: the \<open>n\<close>-th handler ever constructed has address \<open>n\<close>, which is
  also its add time.
\<close>

type_synonym hid = nat

text \<open>
  Modelled from the spec: the class \<open>RouteHandler\<close> of \<open>network.ts\<close> is not among the
  sources. \<open>url\<close> and \<open>handler\<close> are the two fields \<open>unroute\<close> compares with \<open>!==\<close>;
  their types \<open>'u\<close> and \<open>'h\<close> stand for the identities of the matcher and of the callback.
  The spec gives a handler "a remaining-invocation counter (unlimited or N)", here
  \<open>remaining\<close> with \<open>None\<close> for unlimited, initialised from \<open>options.times\<close>; an entry is
  expiring when "its remaining-count reaches zero after this use".
\<close>

record ('u, 'h) route_handler =
  url :: 'u
  handler :: 'h
  remaining :: "nat option"

definition willExpire :: "('u, 'h) route_handler \<Rightarrow> bool" where
  "willExpire rh = (case remaining rh of None \<Rightarrow> False | Some n \<Rightarrow> n \<le> 1)"

subsection \<open>State\<close>

text \<open>
  \<open>routes\<close> is \<open>this._routes\<close>, front first. \<open>heap\<close> is the store of handler objects.
  \<open>interception\<close> is the server-side flag that \<open>setNetworkInterceptionEnabled\<close> sets, and
  \<open>sent\<close> lists the \<open>enabled\<close> argument of every such request in the order sent.
\<close>

record ('u, 'h) route_state =
  routes :: "hid list"
  heap :: "('u, 'h) route_handler list"
  interception :: bool
  sent :: "bool list"

definition new_context :: "('u, 'h) route_state" where
  "new_context = \<lparr>routes = [], heap = [], interception = False, sent = []\<rparr>"

definition deref :: "('u, 'h) route_state \<Rightarrow> hid \<Rightarrow> ('u, 'h) route_handler option" where
  "deref s r = (if r < length (heap s) then Some (heap s ! r) else None)"

text \<open>
  Modelled from the spec: the server behind \<open>this._channel\<close> is an external collaborator; the
  spec has it keep an "interception enabled" flag and assumes a reliable channel, so a request
  is recorded and sets the flag.
\<close>

definition setNetworkInterceptionEnabled ::
  "bool \<Rightarrow> ('u, 'h) route_state \<Rightarrow> ('u, 'h) route_state" where
  "setNetworkInterceptionEnabled enabled s = s\<lparr>interception := enabled, sent := sent s @ [enabled]\<rparr>"

definition disableInterception :: "('u, 'h) route_state \<Rightarrow> ('u, 'h) route_state" where
  "disableInterception s = setNetworkInterceptionEnabled False s"

subsection \<open>route and unroute\<close>

text \<open>
  \<^verbatim>\<open>
  async route(url, handler, options = {}) {
    this._routes.unshift(new network.RouteHandler(this._options.baseURL, url, handler, options.times));
    if (this._routes.length === 1)
      await this._channel.setNetworkInterceptionEnabled({ enabled: true });
  }
  \<close>
\<close>

definition route ::
  "'u \<Rightarrow> 'h \<Rightarrow> nat option \<Rightarrow> ('u, 'h) route_state \<Rightarrow> ('u, 'h) route_state" where
  "route u h tms s =
     (let r = length (heap s);
          s1 = s\<lparr>routes := r # routes s,
                 heap := heap s @ [\<lparr>url = u, handler = h, remaining = tms\<rparr>]\<rparr>
      in if length (routes s1) = 1 then setNetworkInterceptionEnabled True s1 else s1)"

text \<open>
  \<^verbatim>\<open>
  async unroute(url, handler?) {
    this._routes = this._routes.filter(route => route.url !== url || (handler && route.handler !== handler));
    if (!this._routes.length)
      await this._disableInterception();
  }
  \<close>
  An address outside the store cannot occur in the chain (\<open>chain_inv\<close> below); the filter
  keeps such an entry.
\<close>

definition keeps :: "'u \<Rightarrow> 'h option \<Rightarrow> ('u, 'h) route_handler option \<Rightarrow> bool" where
  "keeps u ho cell =
     (case cell of
        None \<Rightarrow> True
      | Some rh \<Rightarrow> url rh \<noteq> u \<or> (case ho of None \<Rightarrow> False | Some h \<Rightarrow> handler rh \<noteq> h))"

definition unroute ::
  "'u \<Rightarrow> 'h option \<Rightarrow> ('u, 'h) route_state \<Rightarrow> ('u, 'h) route_state" where
  "unroute u ho s =
     (let s1 = s\<lparr>routes := filter (\<lambda>r. keeps u ho (deref s r)) (routes s)\<rparr>
      in if routes s1 = [] then disableInterception s1 else s1)"

text \<open>A call of the public interception API, and a sequence of such calls run in order.\<close>

datatype ('u, 'h) api_call = Route 'u 'h "nat option" | Unroute 'u "'h option"

fun apply_call :: "('u, 'h) api_call \<Rightarrow> ('u, 'h) route_state \<Rightarrow> ('u, 'h) route_state" where
  "apply_call (Route u h tms) s = route u h tms s"
| "apply_call (Unroute u ho) s = unroute u ho s"

fun run_calls :: "('u, 'h) api_call list \<Rightarrow> ('u, 'h) route_state \<Rightarrow> ('u, 'h) route_state" where
  "run_calls [] s = s"
| "run_calls (c # cs) s = run_calls cs (apply_call c s)"

text \<open>
  The invariant of the chain: addresses strictly decrease from the front (the most recently
  constructed handler first), every address is allocated, and the server's flag says whether
  the chain is occupied.
\<close>

definition chain_inv :: "('u, 'h) route_state \<Rightarrow> bool" where
  "chain_inv s = (sorted_wrt (>) (routes s) \<and> list_all (\<lambda>r. r < length (heap s)) (routes s))"

definition flag_inv :: "('u, 'h) route_state \<Rightarrow> bool" where
  "flag_inv s = (interception s = (routes s \<noteq> []))"

subsection \<open>Dispatch of a route event\<close>

text \<open>
  \<open>Array.prototype.indexOf\<close> gives the first position of an element, or \<open>-1\<close>.
  \<open>Array.prototype.splice(start, 1)\<close> removes one element at \<open>start\<close>; a negative
  \<open>start\<close> counts from the end (\<open>-1\<close> is the last element) and stops at the front, one
  past the end removes nothing. \<open>splice1\<close> is the array afterwards. So
  \<open>splice(indexOf(x), 1)\<close> removes \<open>x\<close> when the array holds it, and the last element
  when it does not.
\<close>

fun indexOf :: "'a list \<Rightarrow> 'a \<Rightarrow> int" where
  "indexOf [] x = - 1"
| "indexOf (y # ys) x =
     (if y = x then 0 else (let i = indexOf ys x in if i < 0 then - 1 else i + 1))"

definition splice1 :: "int \<Rightarrow> 'a list \<Rightarrow> 'a list" where
  "splice1 start xs =
     (let n = int (length xs);
          k = nat (if start < 0 then max (n + start) 0 else min start n)
      in take k xs @ drop (Suc k) xs)"

text \<open>
  What a handler callback does when it is invoked for a request: the interception calls it
  makes on the context while the dispatch is suspended at
  \<open>await routeHandler.handle(route)\<close>, and how that promise settles: \<open>Inr True\<close> when the
  callback continued, fulfilled or aborted the route, \<open>Inr False\<close> when it fell back, \<open>Inl e\<close>
  when it threw.
\<close>

record ('u, 'h) script =
  calls :: "('u, 'h) api_call list"
  decision :: "error + bool"

text \<open>
  Modelled from the spec: \<open>RouteHandler.handle\<close> is not among the sources. The spec has it
  "invoke the handler and await its decision", one use of the entry's remaining-invocation
  counter.
\<close>

definition handle ::
  "('h \<Rightarrow> string \<Rightarrow> ('u, 'h) script) \<Rightarrow> string \<Rightarrow> hid \<Rightarrow> ('u, 'h) route_handler \<Rightarrow>
   ('u, 'h) route_state \<Rightarrow> ('u, 'h) route_state \<times> (error + bool)" where
  "handle behaviour request r rh s =
     (let sc = behaviour (handler rh) request;
          s1 = s\<lparr>heap := (heap s)[r := rh\<lparr>remaining := map_option (\<lambda>n. n - 1) (remaining rh)\<rparr>]\<rparr>
      in (run_calls (calls sc) s1, decision sc))"

text \<open>
  \<^verbatim>\<open>
  async _onRoute(route) {
    const routeHandlers = this._routes.slice();
    for (const routeHandler of routeHandlers) {
      if (!routeHandler.matches(route.request().url()))
        continue;
      if (routeHandler.willExpire())
        this._routes.splice(this._routes.indexOf(routeHandler), 1);
      const handled = await routeHandler.handle(route);
      if (!this._routes.length)
        this._wrapApiCall(() => this._disableInterception(), true).catch(() => {});
      if (handled)
        return;
    }
    await route._innerContinue(true);
  }
  \<close>
  \<open>matches\<close> is a parameter: the URL predicate of a matcher. The loop runs over the snapshot;
  the state it threads is the live one. Besides the state it returns the log of its handler
  invocations, each with the handler's address, its remaining count before this use and the
  live chain at the moment of the invocation, and how the dispatch ended.
\<close>

datatype route_result = HandledBy hid | Continued | Rejected error

type_synonym invocation = "hid \<times> nat option \<times> hid list"

fun onRoute_loop ::
  "('u \<Rightarrow> string \<Rightarrow> bool) \<Rightarrow> ('h \<Rightarrow> string \<Rightarrow> ('u, 'h) script) \<Rightarrow> string \<Rightarrow> hid list \<Rightarrow>
   ('u, 'h) route_state \<Rightarrow> ('u, 'h) route_state \<times> invocation list \<times> route_result" where
  "onRoute_loop matches behaviour request [] s = (s, [], Continued)"
| "onRoute_loop matches behaviour request (r # rs) s =
     (case deref s r of
        None \<Rightarrow> onRoute_loop matches behaviour request rs s
      | Some rh \<Rightarrow>
          if \<not> matches (url rh) request then onRoute_loop matches behaviour request rs s
          else
            let s1 = (if willExpire rh
                      then s\<lparr>routes := splice1 (indexOf (routes s) r) (routes s)\<rparr> else s);
                entry = (r, remaining rh, routes s1)
            in (case handle behaviour request r rh s1 of
                  (s2, Inl e) \<Rightarrow> (s2, [entry], Rejected e)
                | (s2, Inr handled) \<Rightarrow>
                    let s3 = (if routes s2 = [] then disableInterception s2 else s2)
                    in if handled then (s3, [entry], HandledBy r)
                       else (case onRoute_loop matches behaviour request rs s3 of
                               (s4, entries, res) \<Rightarrow> (s4, entry # entries, res))))"

definition onRoute ::
  "('u \<Rightarrow> string \<Rightarrow> bool) \<Rightarrow> ('h \<Rightarrow> string \<Rightarrow> ('u, 'h) script) \<Rightarrow> string \<Rightarrow>
   ('u, 'h) route_state \<Rightarrow> ('u, 'h) route_state \<times> invocation list \<times> route_result" where
  "onRoute matches behaviour request s = onRoute_loop matches behaviour request (routes s) s"

text \<open>
  The spec's words for the same dispatch, read off the chain and the store as they are when
  the event arrives, with no reference to what happens during handling: going front to back,
  a matching handler is invoked, and the next matching one only if it did not conclusively
  act.
\<close>

fun snapshot_invocations ::
  "('u \<Rightarrow> string \<Rightarrow> bool) \<Rightarrow> ('h \<Rightarrow> string \<Rightarrow> ('u, 'h) script) \<Rightarrow> string \<Rightarrow>
   ('u, 'h) route_handler list \<Rightarrow> hid list \<Rightarrow> hid list" where
  "snapshot_invocations matches behaviour request H [] = []"
| "snapshot_invocations matches behaviour request H (r # rs) =
     (if r < length H \<and> matches (url (H ! r)) request
      then (if decision (behaviour (handler (H ! r)) request) = Inr False
            then r # snapshot_invocations matches behaviour request H rs else [r])
      else snapshot_invocations matches behaviour request H rs)"

definition declines ::
  "('u \<Rightarrow> string \<Rightarrow> bool) \<Rightarrow> ('h \<Rightarrow> string \<Rightarrow> ('u, 'h) script) \<Rightarrow> string \<Rightarrow>
   ('u, 'h) route_handler list \<Rightarrow> hid \<Rightarrow> bool" where
  "declines matches behaviour request H r =
     (r < length H \<and> matches (url (H ! r)) request \<longrightarrow>
        decision (behaviour (handler (H ! r)) request) = Inr False)"

definition expiring :: "nat option \<Rightarrow> bool" where
  "expiring rem = (case rem of None \<Rightarrow> False | Some n \<Rightarrow> n \<le> 1)"

definition removed_before_invocation :: "invocation \<Rightarrow> bool" where
  "removed_before_invocation = (\<lambda>(r, rem, live). expiring rem \<longrightarrow> r \<notin> set live)"

text \<open>
  A later store agrees with the store \<open>H\<close> of dispatch start on the matcher and the callback
  of every handler that existed then: only the counters change.
\<close>

definition stable :: "('u, 'h) route_handler list \<Rightarrow> ('u, 'h) route_state \<Rightarrow> bool" where
  "stable H s =
     (length H \<le> length (heap s) \<and>
      (\<forall>r < length H. url (heap s ! r) = url (H ! r) \<and> handler (heap s ! r) = handler (H ! r)))"

text \<open>
  How the same reading ends: with the first matching handler that conclusively acts, with the
  error of the first one that throws, or, when every matching handler has fallen back, with
  the request continued.
\<close>

fun snapshot_result ::
  "('u \<Rightarrow> string \<Rightarrow> bool) \<Rightarrow> ('h \<Rightarrow> string \<Rightarrow> ('u, 'h) script) \<Rightarrow> string \<Rightarrow>
   ('u, 'h) route_handler list \<Rightarrow> hid list \<Rightarrow> route_result" where
  "snapshot_result matches behaviour request H [] = Continued"
| "snapshot_result matches behaviour request H (r # rs) =
     (if r < length H \<and> matches (url (H ! r)) request
      then (case decision (behaviour (handler (H ! r)) request) of
              Inl e \<Rightarrow> Rejected e
            | Inr handled \<Rightarrow>
                if handled then HandledBy r else snapshot_result matches behaviour request H rs)
      else snapshot_result matches behaviour request H rs)"

text \<open>
  A handler conclusively acts on the request when it matches and its handling resolves to
  \<open>true\<close>.
\<close>

definition acts ::
  "('u \<Rightarrow> string \<Rightarrow> bool) \<Rightarrow> ('h \<Rightarrow> string \<Rightarrow> ('u, 'h) script) \<Rightarrow> string \<Rightarrow>
   ('u, 'h) route_handler list \<Rightarrow> hid \<Rightarrow> bool" where
  "acts matches behaviour request H r =
     (r < length H \<and> matches (url (H ! r)) request \<and>
      decision (behaviour (handler (H ! r)) request) = Inr True)"

text \<open>
  An address is gone from a context when it is allocated and not in the live chain. An
  expiring entry of the log is removed after the dispatch when it is not in the chain of the
  state the dispatch ends in. The first invocation of a dispatch finds the counter as the store
  of dispatch start has it and the chain of dispatch start, less the handler itself when it is
  expiring.
\<close>

definition gone :: "hid \<Rightarrow> ('u, 'h) route_state \<Rightarrow> bool" where
  "gone r s = (r < length (heap s) \<and> r \<notin> set (routes s))"

definition removed_after :: "('u, 'h) route_state \<Rightarrow> invocation \<Rightarrow> bool" where
  "removed_after s = (\<lambda>(r, rem, live). expiring rem \<longrightarrow> r \<notin> set (routes s))"

definition first_invocation :: "('u, 'h) route_state \<Rightarrow> invocation \<Rightarrow> bool" where
  "first_invocation s = (\<lambda>(r, rem, live).
     rem = remaining (heap s ! r) \<and>
     live = (if willExpire (heap s ! r) then remove1 r (routes s) else routes s))"

text \<open>
  An example: three handlers are added, the second for one use only. The callback added last,
  when invoked, adds a fourth handler for the same URL, removes the handlers of \<open>/a\<close> and
  falls back; every other callback falls back at once.
\<close>

definition example_behaviour :: "nat \<Rightarrow> string \<Rightarrow> (string, nat) script" where
  "example_behaviour h request =
     (if h = 3 then \<lparr>calls = [Route ''/b'' 4 None, Unroute ''/a'' None], decision = Inr False\<rparr>
      else \<lparr>calls = [], decision = Inr False\<rparr>)"

definition example_chain :: "(string, nat) route_state" where
  "example_chain =
     run_calls [Route ''/a'' 1 None, Route ''/b'' 2 (Some 1), Route ''/b'' 3 None] new_context"


text \<open>
  A second example on the same chain: the callback added last removes the one-use handler
  behind it, adds a handler for \<open>/c\<close> and falls back.
\<close>

definition unrouting_behaviour :: "nat \<Rightarrow> string \<Rightarrow> (string, nat) script" where
  "unrouting_behaviour h request =
     (if h = 3 then \<lparr>calls = [Unroute ''/b'' (Some 2), Route ''/c'' 4 None], decision = Inr False\<rparr>
      else \<lparr>calls = [], decision = Inr False\<rparr>)"

text \<open>A third example: every callback throws.\<close>

definition throwing_behaviour :: "nat \<Rightarrow> string \<Rightarrow> (string, nat) script" where
  "throwing_behaviour h request = \<lparr>calls = [], decision = Inl (Error ''boom'')\<rparr>"

section \<open>Exposed bindings\<close>

text \<open>
  \<open>this._bindings\<close> is a \<open>Map\<close> from names to functions \<open>(source, ...args) => any\<close>. A
  callback is known by its identity \<open>'f\<close>; what it computes is the parameter \<open>run\<close> of the
  functions below, which gives the value it returns or the error it throws. \<open>exposeBinding\<close>
  stores the callback itself, \<open>exposeFunction\<close> stores the wrapper
  \<open>(source, ...args) => callback(...args)\<close>, which drops the source.
\<close>

datatype 'f bound = WithSource 'f | ArgsOnly 'f

type_synonym 'f bindings = "string \<Rightarrow> 'f bound option"


definition exposeFunction ::
  "error option \<Rightarrow> string \<Rightarrow> 'f \<Rightarrow> 'f bindings \<Rightarrow> error + 'f bindings" where
  "exposeFunction reply name callback bindings =
     (case reply of
        Some e \<Rightarrow> Inl e
      | None \<Rightarrow> Inr (bindings(name \<mapsto> ArgsOnly callback)))"

text \<open>
  An inbound binding call carries the name of the binding (\<open>bindingCall._initializer.name\<close>),
  the call site and the arguments.
\<close>

record ('s, 'a) binding_call =
  call_name :: string
  call_source :: 's
  call_args :: "'a list"

datatype ('f, 's, 'a, 'r) binding_effect =
  Invoke 'f "'s option" "'a list" | Resolve 'r | Reject error

fun respond :: "error + 'r \<Rightarrow> ('f, 's, 'a, 'r) binding_effect" where
  "respond (Inl e) = Reject e"
| "respond (Inr v) = Resolve v"

text \<open>
  Modelled from the spec: \<open>BindingCall.call\<close> of \<open>page.ts\<close> is not among the sources. The spec
  has it "invoke callback with a call-site handle and forwarded arguments, then report the
  return value or thrown error back through the call's own response mechanism". Its effects
  are listed in order.
\<close>

definition bindingCall_call ::
  "('f \<Rightarrow> 's option \<Rightarrow> 'a list \<Rightarrow> error + 'r) \<Rightarrow> 'f bound \<Rightarrow> ('s, 'a) binding_call \<Rightarrow>
   ('f, 's, 'a, 'r) binding_effect list" where
  "bindingCall_call run func bindingCall =
     (case func of
        WithSource f \<Rightarrow>
          [Invoke f (Some (call_source bindingCall)) (call_args bindingCall),
           respond (run f (Some (call_source bindingCall)) (call_args bindingCall))]
      | ArgsOnly f \<Rightarrow>
          [Invoke f None (call_args bindingCall),
           respond (run f None (call_args bindingCall))])"

text \<open>
  \<^verbatim>\<open>
  async _onBinding(bindingCall) {
    const func = this._bindings.get(bindingCall._initializer.name);
    if (!func)
      return;
    await bindingCall.call(func);
  }
  \<close>
  The result is the list of effects of the dispatch; the function has no throwing path.
\<close>

definition onBinding ::
  "('f \<Rightarrow> 's option \<Rightarrow> 'a list \<Rightarrow> error + 'r) \<Rightarrow> 'f bindings \<Rightarrow> ('s, 'a) binding_call \<Rightarrow>
   ('f, 's, 'a, 'r) binding_effect list" where
  "onBinding run bindings bindingCall =
     (case bindings (call_name bindingCall) of
        None \<Rightarrow> []
      | Some func \<Rightarrow> bindingCall_call run func bindingCall)"

text \<open>An example callback: it greets its first argument.\<close>

fun greeter :: "nat \<Rightarrow> string option \<Rightarrow> string list \<Rightarrow> error + string" where
  "greeter f source [] = Inl (Error ''no argument'')"
| "greeter f source (a # as) = Inr (''hello '' @ a)"

section \<open>Waiting for an event\<close>

subsection \<open>The waiter\<close>

text \<open>
  Modelled from the spec: the class \<open>Waiter\<close> of \<open>waiter.ts\<close> and the event emitter are not
  among the sources. The spec has a waiter race the delivery of the awaited event (where the
  predicate holds or is absent), the elapsed time-out, which fails with \<open>TimeoutError\<close>, and
  an explicitly registered abort event, which fails with the given error; "first signal to
  fire wins", and on settlement the waiter unregisters from all sources, so there is no
  double settlement. Listeners are invoked in registration order.

  A waiter is the list of its registrations in registration order. What happens while the
  wait is pending is a list of signals in the order they fire: an event emitted on the
  context, or the timer of the wait running out.
\<close>

datatype 'p signal = Emit string 'p | TimerElapsed

datatype 'p listener =
  RejectOnTimeout nat string
| RejectOnEvent string error
| ResolveOnEvent string "('p \<Rightarrow> bool) option"

datatype 'p settlement = Fulfilled 'p | RejectedWith error

definition accepts :: "('p \<Rightarrow> bool) option \<Rightarrow> 'p \<Rightarrow> bool" where
  "accepts predicate p = (case predicate of None \<Rightarrow> True | Some q \<Rightarrow> q p)"

fun react :: "'p signal \<Rightarrow> 'p listener \<Rightarrow> 'p settlement option" where
  "react TimerElapsed (RejectOnTimeout timeout event) = Some (RejectedWith (TimeoutError timeout event))"
| "react (Emit name p) (RejectOnEvent event e) = (if name = event then Some (RejectedWith e) else None)"
| "react (Emit name p) (ResolveOnEvent event predicate) =
     (if name = event \<and> accepts predicate p then Some (Fulfilled p) else None)"
| "react sg l = None"

fun deliver :: "'p signal \<Rightarrow> 'p listener list \<Rightarrow> 'p settlement option" where
  "deliver sg [] = None"
| "deliver sg (l # ls) = (case react sg l of Some st \<Rightarrow> Some st | None \<Rightarrow> deliver sg ls)"

text \<open>
  The settlement of a wait over the signals that fire, \<open>None\<close> while it is still pending:
  the first signal some registration reacts to settles it, and later signals find nothing
  registered.
\<close>

fun settle :: "'p listener list \<Rightarrow> 'p signal list \<Rightarrow> 'p settlement option" where
  "settle ls [] = None"
| "settle ls (sg # sgs) = (case deliver sg ls of Some st \<Rightarrow> Some st | None \<Rightarrow> settle ls sgs)"

definition createForEvent :: "'p listener list" where
  "createForEvent = []"

definition rejectOnTimeout :: "nat \<Rightarrow> string \<Rightarrow> 'p listener list \<Rightarrow> 'p listener list" where
  "rejectOnTimeout timeout event waiter = waiter @ [RejectOnTimeout timeout event]"

definition rejectOnEvent :: "string \<Rightarrow> error \<Rightarrow> 'p listener list \<Rightarrow> 'p listener list" where
  "rejectOnEvent event e waiter = waiter @ [RejectOnEvent event e]"

definition waiter_waitForEvent ::
  "string \<Rightarrow> ('p \<Rightarrow> bool) option \<Rightarrow> 'p listener list \<Rightarrow> 'p listener list" where
  "waiter_waitForEvent event predicate waiter = waiter @ [ResolveOnEvent event predicate]"

subsection \<open>waitForEvent of the context\<close>

text \<open>
  Modelled from the spec: \<open>Events.BrowserContext.Close\<close> of \<open>events.ts\<close> is not among the
  sources; it is the name of the context's close event.
\<close>

definition Events_BrowserContext_Close :: string where
  "Events_BrowserContext_Close = ''close''"

text \<open>
  \<^verbatim>\<open>
  async waitForEvent(event, optionsOrPredicate = {}) {
    return this._wrapApiCall(async () => {
      const timeout = this._timeoutSettings.timeout(...);
      const predicate = ...;
      const waiter = Waiter.createForEvent(this, event);
      waiter.rejectOnTimeout(timeout, `Timeout ${timeout}ms exceeded while waiting for event "${event}"`);
      if (event !== Events.BrowserContext.Close)
        waiter.rejectOnEvent(this, Events.BrowserContext.Close, new Error('Context closed'));
      const result = await waiter.waitForEvent(this, event, predicate);
      waiter.dispose();
      return result;
    });
  }
  \<close>
  \<open>timeout\<close> is the resolved time-out and \<open>predicate\<close> the optional predicate.
  \<open>waitForEvent_registrations\<close> is the waiter once the function has made its registrations,
  in the order of the calls; \<open>waitForEvent\<close> is how the returned promise settles over the
  signals that fire after the call.
\<close>

definition waitForEvent_registrations ::
  "string \<Rightarrow> ('p \<Rightarrow> bool) option \<Rightarrow> nat \<Rightarrow> 'p listener list" where
  "waitForEvent_registrations event predicate timeout =
     (let waiter = createForEvent;
          waiter = rejectOnTimeout timeout event waiter;
          waiter = (if event \<noteq> Events_BrowserContext_Close
                    then rejectOnEvent Events_BrowserContext_Close (Error ''Context closed'') waiter
                    else waiter)
      in waiter_waitForEvent event predicate waiter)"

definition waitForEvent ::
  "string \<Rightarrow> ('p \<Rightarrow> bool) option \<Rightarrow> nat \<Rightarrow> 'p signal list \<Rightarrow> 'p settlement option" where
  "waitForEvent event predicate timeout sgs =
     settle (waitForEvent_registrations event predicate timeout) sgs"

text \<open>
  A signal qualifies when it is the awaited event with a payload the predicate accepts; it is
  the close event when it is an emission of \<open>Events.BrowserContext.Close\<close>.
\<close>

fun qualifying :: "string \<Rightarrow> ('p \<Rightarrow> bool) option \<Rightarrow> 'p signal \<Rightarrow> bool" where
  "qualifying event predicate (Emit name p) = (name = event \<and> accepts predicate p)"
| "qualifying event predicate TimerElapsed = False"

fun is_close :: "'p signal \<Rightarrow> bool" where
  "is_close (Emit name p) = (name = Events_BrowserContext_Close)"
| "is_close TimerElapsed = False"

fun is_match :: "'p listener \<Rightarrow> bool" where
  "is_match (ResolveOnEvent event predicate) = True"
| "is_match l = False"

fun is_abort :: "'p listener \<Rightarrow> bool" where
  "is_abort (RejectOnEvent event e) = True"
| "is_abort l = False"

text \<open>
  \<open>registered_before P Q ls\<close>: the first registration satisfying \<open>P\<close> comes before every
  registration satisfying \<open>Q\<close>, and there is one of each.
\<close>

fun registered_before :: "('a \<Rightarrow> bool) \<Rightarrow> ('a \<Rightarrow> bool) \<Rightarrow> 'a list \<Rightarrow> bool" where
  "registered_before P Q [] = False"
| "registered_before P Q (l # ls) =
     (if Q l then False else if P l then list_ex Q ls else registered_before P Q ls)"

text \<open>A signal aborts a wait for \<open>event\<close> when it is the close event and \<open>event\<close> is another one.\<close>

definition aborting :: "string \<Rightarrow> 'p signal \<Rightarrow> bool" where
  "aborting event sg = (event \<noteq> Events_BrowserContext_Close \<and> is_close sg)"

section \<open>Closing a context\<close>

subsection \<open>HAR recorders\<close>

text \<open>
  \<open>this._harRecorders\<close> is a \<open>Map\<close> from recording ids to the destination path and the
  content mode; it is iterated in insertion order, so it is a list of pairs here.
\<close>

datatype content_mode = Embed | Attach | Omit

record har_params =
  path :: string
  content :: "content_mode option"

definition endsWith :: "string \<Rightarrow> string \<Rightarrow> bool" where
  "endsWith s sfx = (length sfx \<le> length s \<and> drop (length s - length sfx) s = sfx)"

subsection \<open>The steps of close\<close>

text \<open>
  Every \<open>await\<close> of \<open>close\<close> is one step: the pre-close hook of the browser type, the export
  of a recording, saving the exported artifact to a path, unzipping, deleting the artifact,
  the close request and the wait for the close event. \<open>SaveAs\<close> carries the recording id of
  its artifact and the form of the artifact.
\<close>

datatype file_form = ZipArchive | PlainHar

datatype action =
  OnWillCloseContext
| HarExport string
| SaveAs string file_form string
| HarUnzip string string
| ArtifactDelete string
| ChannelClose
| AwaitClosed

text \<open>
  \<open>trace\<close> lists the steps taken so far, in order, the failed ones included. \<open>files\<close> is
  the file system, as far as the forms of HAR files go. \<open>closed\<close> says whether the close
  event of the context has been emitted, which resolves \<open>this._closedPromise\<close>.
\<close>

record world =
  trace :: "action list"
  files :: "string \<Rightarrow> file_form option"
  closed :: bool

definition new_world :: world where
  "new_world = \<lparr>trace = [], files = Map.empty, closed = False\<rparr>"

text \<open>
  The collaborators (the server, the artifact, the local utilities, the hook) decide whether a
  step fails: \<open>env tr a\<close> is the error with which step \<open>a\<close> fails after the steps \<open>tr\<close>, or
  \<open>None\<close> when it succeeds.
\<close>

type_synonym env = "action list \<Rightarrow> action \<Rightarrow> error option"

text \<open>
  Modelled from the spec: the collaborators are not among the sources. A successful step does
  what its name says: \<open>saveAs\<close> writes the artifact to the path, \<open>harUnzip\<close> extracts the
  archive \<open>zipFile\<close> into the HAR file \<open>harFile\<close> (what becomes of \<open>zipFile\<close> is left
  open), and a close request that succeeds is followed by the close event of the context.
\<close>

fun effect :: "action \<Rightarrow> world \<Rightarrow> world" where
  "effect (SaveAs harId form p) w = w\<lparr>files := (files w)(p \<mapsto> form)\<rparr>"
| "effect (HarUnzip zipFile harFile) w = w\<lparr>files := (files w)(harFile \<mapsto> PlainHar)\<rparr>"
| "effect ChannelClose w = w\<lparr>closed := True\<rparr>"
| "effect a w = w"

datatype run_result = Completed | Threw error | Blocked

text \<open>
  One step. Awaiting \<open>this._closedPromise\<close> cannot fail: it goes on once the close event has
  been emitted and blocks until then.
\<close>

definition perform :: "env \<Rightarrow> action \<Rightarrow> world \<Rightarrow> world \<times> run_result" where
  "perform env a w =
     (if a = AwaitClosed then (if closed w then (w\<lparr>trace := trace w @ [a]\<rparr>, Completed) else (w, Blocked))
      else (case env (trace w) a of
              Some e \<Rightarrow> (w\<lparr>trace := trace w @ [a]\<rparr>, Threw e)
            | None \<Rightarrow> (effect a (w\<lparr>trace := trace w @ [a]\<rparr>), Completed)))"

fun run_steps :: "env \<Rightarrow> action list \<Rightarrow> world \<Rightarrow> world \<times> run_result" where
  "run_steps env [] w = (w, Completed)"
| "run_steps env (a # as) w =
     (case perform env a w of
        (w1, Completed) \<Rightarrow> run_steps env as w1
      | (w1, r) \<Rightarrow> (w1, r))"

text \<open>
  \<^verbatim>\<open>
  async close() {
    try {
      await this._wrapApiCall(async () => {
        await this._browserType?._onWillCloseContext?.(this);
        for (const [harId, harParams] of this._harRecorders) {
          const har = await this._channel.harExport({ harId });
          const artifact = Artifact.from(har.artifact);
          // Server side will compress artifact if content is attach or if file is .zip.
          const isCompressed = harParams.content === 'attach' || harParams.path.endsWith('.zip');
          const needCompressed = harParams.path.endsWith('.zip');
          if (isCompressed && !needCompressed) {
            await artifact.saveAs(harParams.path + '.tmp');
            await this._connection.localUtils()._channel.harUnzip({ zipFile: harParams.path + '.tmp', harFile: harParams.path });
          } else {
            await artifact.saveAs(harParams.path);
          }
          await artifact.delete();
        }
      }, true);
      await this._channel.close();
      await this._closedPromise;
    } catch (e) {
      if (isSafeCloseError(e))
        return;
      throw e;
    }
  }
  \<close>
  \<open>har_actions\<close> is the body of the loop for one recorder. The form of the exported artifact
  is what the comment in the loop says of the server. \<open>hook\<close> says whether the browser type
  has an \<open>_onWillCloseContext\<close>. \<open>isSafeCloseError\<close> is a parameter: the function of
  \<open>common/errors\<close> is not among the sources.
\<close>

definition har_actions :: "string \<times> har_params \<Rightarrow> action list" where
  "har_actions = (\<lambda>(harId, harParams).
     (let isCompressed = (content harParams = Some Attach \<or> endsWith (path harParams) ''.zip'');
          needCompressed = endsWith (path harParams) ''.zip'';
          form = (if isCompressed then ZipArchive else PlainHar)
      in [HarExport harId] @
         (if isCompressed \<and> \<not> needCompressed
          then [SaveAs harId form (path harParams @ ''.tmp''),
                HarUnzip (path harParams @ ''.tmp'') (path harParams)]
          else [SaveAs harId form (path harParams)]) @
         [ArtifactDelete harId]))"

definition close_actions :: "bool \<Rightarrow> (string \<times> har_params) list \<Rightarrow> action list" where
  "close_actions hook harRecorders =
     (if hook then [OnWillCloseContext] else []) @
     concat (map har_actions harRecorders) @
     [ChannelClose, AwaitClosed]"

datatype outcome = Returned | Thrown error | Pending

definition settled :: "(error \<Rightarrow> bool) \<Rightarrow> error \<Rightarrow> outcome" where
  "settled isSafeCloseError e = (if isSafeCloseError e then Returned else Thrown e)"

definition close ::
  "(error \<Rightarrow> bool) \<Rightarrow> env \<Rightarrow> bool \<Rightarrow> (string \<times> har_params) list \<Rightarrow> world \<Rightarrow> world \<times> outcome" where
  "close isSafeCloseError env hook harRecorders w =
     (case run_steps env (close_actions hook harRecorders) w of
        (w1, Completed) \<Rightarrow> (w1, Returned)
      | (w1, Threw e) \<Rightarrow> (w1, settled isSafeCloseError e)
      | (w1, Blocked) \<Rightarrow> (w1, Pending))"

subsection \<open>Concurrent calls of close\<close>

text \<open>
  Several calls of \<open>close\<close> in flight are interleaved at their \<open>await\<close>s. A caller is the
  list of steps it still has to take, or the outcome its promise settled with. A schedule
  names, step by step, the caller that goes on; a caller blocked on the close event stays
  where it is. All callers share the world.
\<close>

datatype caller = Running "action list" | Settled outcome

fun is_settled :: "caller \<Rightarrow> bool" where
  "is_settled (Settled out) = True"
| "is_settled (Running as) = False"

fun step_caller :: "(error \<Rightarrow> bool) \<Rightarrow> env \<Rightarrow> world \<Rightarrow> caller \<Rightarrow> world \<times> caller" where
  "step_caller isSafeCloseError env w (Settled out) = (w, Settled out)"
| "step_caller isSafeCloseError env w (Running []) = (w, Settled Returned)"
| "step_caller isSafeCloseError env w (Running (a # as)) =
     (case perform env a w of
        (w1, Completed) \<Rightarrow> (w1, Running as)
      | (w1, Threw e) \<Rightarrow> (w1, Settled (settled isSafeCloseError e))
      | (w1, Blocked) \<Rightarrow> (w, Running (a # as)))"

fun schedule ::
  "(error \<Rightarrow> bool) \<Rightarrow> env \<Rightarrow> nat list \<Rightarrow> world \<times> caller list \<Rightarrow> world \<times> caller list" where
  "schedule isSafeCloseError env [] st = st"
| "schedule isSafeCloseError env (i # is) (w, cs) =
     (if i < length cs
      then (case step_caller isSafeCloseError env w (cs ! i) of
              (w1, c1) \<Rightarrow> schedule isSafeCloseError env is (w1, cs[i := c1]))
      else schedule isSafeCloseError env is (w, cs))"

definition concurrent_close :: "nat \<Rightarrow> bool \<Rightarrow> (string \<times> har_params) list \<Rightarrow> caller list" where
  "concurrent_close n hook harRecorders = replicate n (Running (close_actions hook harRecorders))"

text \<open>
  How often a caller has still to take step \<open>a\<close>, and whether \<open>a\<close> is nowhere but at the
  head of what the caller has still to do.
\<close>

fun steps_left :: "action \<Rightarrow> caller \<Rightarrow> nat" where
  "steps_left a (Running as) = count_list as a"
| "steps_left a (Settled out) = 0"

fun only_at_head :: "action \<Rightarrow> caller \<Rightarrow> bool" where
  "only_at_head a (Running as) = (a \<notin> set (tl as))"
| "only_at_head a (Settled out) = True"

text \<open>
  Examples: a server that refuses every close request after the first with an error that
  \<open>isSafeCloseError\<close> accepts, and one that fails the export of recording \<open>2\<close>.
\<close>

definition already_closed :: error where
  "already_closed = Error ''Target page, context or browser has been closed''"

definition closes_once :: env where
  "closes_once tr a = (if a = ChannelClose \<and> ChannelClose \<in> set tr then Some already_closed else None)"

definition export_fails :: env where
  "export_fails tr a = (if a = HarExport ''2'' then Some (Error ''export failed'') else None)"

definition three_recorders :: "(string \<times> har_params) list" where
  "three_recorders =
     [(''1'', \<lparr>path = ''one.har'', content = Some Embed\<rparr>),
      (''2'', \<lparr>path = ''two.zip'', content = None\<rparr>),
      (''3'', \<lparr>path = ''three.har'', content = Some Attach\<rparr>)]"

section \<open>Properties of the route chain\<close>

lemma sorted_wrt_filter_gt: "sorted_wrt (>) xs \<Longrightarrow> sorted_wrt (>) (filter P (xs :: nat list))"
  by (induction xs) auto

lemma chain_inv_route: "chain_inv s \<Longrightarrow> chain_inv (route u h tms s)"
  by (auto simp: chain_inv_def route_def Let_def setNetworkInterceptionEnabled_def list_all_iff
           intro: less_SucI)

lemma chain_inv_unroute: "chain_inv s \<Longrightarrow> chain_inv (unroute u ho s)"
  by (auto simp: chain_inv_def unroute_def Let_def disableInterception_def
                 setNetworkInterceptionEnabled_def list_all_iff sorted_wrt_filter_gt)

lemma flag_inv_route: "flag_inv s \<Longrightarrow> flag_inv (route u h tms s)"
  by (cases "routes s") (auto simp: flag_inv_def route_def Let_def setNetworkInterceptionEnabled_def)

lemma flag_inv_unroute: "flag_inv s \<Longrightarrow> flag_inv (unroute u ho s)"
  by (auto simp: flag_inv_def unroute_def Let_def disableInterception_def
                 setNetworkInterceptionEnabled_def)

lemma chain_inv_apply_call: "chain_inv s \<Longrightarrow> chain_inv (apply_call c s)"
  by (cases c) (simp_all add: chain_inv_route chain_inv_unroute)

lemma flag_inv_apply_call: "flag_inv s \<Longrightarrow> flag_inv (apply_call c s)"
  by (cases c) (simp_all add: flag_inv_route flag_inv_unroute)

lemma chain_inv_run_calls: "chain_inv s \<Longrightarrow> chain_inv (run_calls cs s)"
  by (induction cs arbitrary: s) (simp_all add: chain_inv_apply_call)

lemma flag_inv_run_calls: "flag_inv s \<Longrightarrow> flag_inv (run_calls cs s)"
  by (induction cs arbitrary: s) (simp_all add: flag_inv_apply_call)

lemma chain_inv_new_context: "chain_inv new_context"
  by (simp add: chain_inv_def new_context_def)

lemma flag_inv_new_context: "flag_inv new_context"
  by (simp add: flag_inv_def new_context_def)

subsection \<open>Array operations\<close>

lemma indexOf_notin: "x \<notin> set xs \<Longrightarrow> indexOf xs x = - 1"
  by (induction xs) auto

lemma indexOf_in: "x \<in> set xs \<Longrightarrow> 0 \<le> indexOf xs x \<and> nat (indexOf xs x) < length xs \<and> xs ! nat (indexOf xs x) = x"
  by (induction xs) (auto simp: Let_def nat_add_distrib)

lemma splice1_nat: "splice1 (int k) xs = take k xs @ drop (Suc k) xs"
  by (simp add: splice1_def Let_def min_def)

lemma set_splice1: "set (splice1 i xs) \<subseteq> set xs"
  by (auto simp: splice1_def Let_def dest: in_set_takeD in_set_dropD)

lemma sorted_wrt_take_drop: "sorted_wrt P xs \<Longrightarrow> sorted_wrt P (take k xs @ drop (Suc k) xs)"
proof (induction xs arbitrary: k)
  case Nil
  then show ?case by simp
next
  case (Cons x xs)
  show ?case
  proof (cases k)
    case 0
    with Cons.prems show ?thesis by simp
  next
    case (Suc j)
    have "\<forall>y\<in>set (take j xs @ drop (Suc j) xs). P x y"
      using Cons.prems by (auto dest: in_set_takeD in_set_dropD)
    with Cons.IH[of j] Cons.prems Suc show ?thesis by simp
  qed
qed

lemma sorted_wrt_splice1: "sorted_wrt P xs \<Longrightarrow> sorted_wrt P (splice1 i xs)"
  unfolding splice1_def Let_def by (rule sorted_wrt_take_drop)

lemma notin_take_drop: "distinct xs \<Longrightarrow> k < length xs \<Longrightarrow> xs ! k \<notin> set (take k xs @ drop (Suc k) xs)"
proof (induction xs arbitrary: k)
  case Nil
  then show ?case by simp
next
  case (Cons x xs)
  show ?case
  proof (cases k)
    case 0
    with Cons.prems show ?thesis by simp
  next
    case (Suc j)
    with Cons.prems have "xs ! j \<notin> set (take j xs @ drop (Suc j) xs)" "xs ! j \<noteq> x"
      using Cons.IH[of j] by auto
    with Suc show ?thesis by simp
  qed
qed

lemma distinct_splice1_indexOf: "distinct xs \<Longrightarrow> x \<notin> set (splice1 (indexOf xs x) xs)"
proof (cases "x \<in> set xs")
  case False
  then show ?thesis using set_splice1 by fastforce
next
  case True
  assume d: "distinct xs"
  from indexOf_in[OF True] obtain k where k: "indexOf xs x = int k" "k < length xs" "xs ! k = x"
    by (metis nat_0_le)
  show ?thesis using notin_take_drop[OF d k(2)] k by (simp add: splice1_nat)
qed

subsection \<open>The invariants through a dispatch\<close>

lemma chain_inv_splice: "chain_inv s \<Longrightarrow> chain_inv (s\<lparr>routes := splice1 i (routes s)\<rparr>)"
  using set_splice1[of i "routes s"]
  by (auto simp: chain_inv_def sorted_wrt_splice1 list_all_iff)

lemma chain_inv_heap_update: "chain_inv s \<Longrightarrow> chain_inv (s\<lparr>heap := (heap s)[r := x]\<rparr>)"
  by (simp add: chain_inv_def)

lemma chain_inv_disable: "chain_inv s \<Longrightarrow> chain_inv (disableInterception s)"
  by (simp add: chain_inv_def disableInterception_def setNetworkInterceptionEnabled_def)

lemma sorted_wrt_gt_distinct: "sorted_wrt (>) xs \<Longrightarrow> distinct (xs :: nat list)"
  by (induction xs) auto

lemma chain_inv_distinct: "chain_inv s \<Longrightarrow> distinct (routes s)"
  by (simp add: chain_inv_def sorted_wrt_gt_distinct)

lemma stable_refl: "stable (heap s) s"
  by (simp add: stable_def)

lemma stable_splice: "stable H s \<Longrightarrow> stable H (s\<lparr>routes := xs\<rparr>)"
  by (simp add: stable_def)

lemma stable_disable: "stable H s \<Longrightarrow> stable H (disableInterception s)"
  by (simp add: stable_def disableInterception_def setNetworkInterceptionEnabled_def)

lemma stable_heap_update:
  "stable H s \<Longrightarrow> r < length (heap s) \<Longrightarrow>
   stable H (s\<lparr>heap := (heap s)[r := (heap s ! r)\<lparr>remaining := c\<rparr>]\<rparr>)"
  by (auto simp: stable_def nth_list_update)

lemma stable_route: "stable H s \<Longrightarrow> stable H (route u h tms s)"
  by (auto simp: stable_def route_def Let_def setNetworkInterceptionEnabled_def nth_append)

lemma stable_unroute: "stable H s \<Longrightarrow> stable H (unroute u ho s)"
  by (auto simp: stable_def unroute_def Let_def disableInterception_def setNetworkInterceptionEnabled_def)

lemma stable_apply_call: "stable H s \<Longrightarrow> stable H (apply_call c s)"
  by (cases c) (simp_all add: stable_route stable_unroute)

lemma stable_run_calls: "stable H s \<Longrightarrow> stable H (run_calls cs s)"
  by (induction cs arbitrary: s) (simp_all add: stable_apply_call)

lemma handle_props:
  assumes "chain_inv s" "stable H s" "deref s r = Some rh" "handle beh req r rh s = (s2, d)"
  shows "chain_inv s2 \<and> stable H s2 \<and> d = decision (beh (handler rh) req)"
proof -
  from assms(3) have r: "r < length (heap s)" "rh = heap s ! r"
    by (auto simp: deref_def split: if_splits)
  let ?s1 = "s\<lparr>heap := (heap s)[r := rh\<lparr>remaining := map_option (\<lambda>n. n - 1) (remaining rh)\<rparr>]\<rparr>"
  have "chain_inv ?s1" using assms(1) by (rule chain_inv_heap_update)
  moreover have "stable H ?s1" using stable_heap_update[OF assms(2) r(1)] r(2) by simp
  moreover have "s2 = run_calls (calls (beh (handler rh) req)) ?s1" "d = decision (beh (handler rh) req)"
    using assms(4) by (simp_all add: handle_def Let_def)
  ultimately show ?thesis by (simp add: chain_inv_run_calls stable_run_calls)
qed

lemma onRoute_loop_props:
  assumes "chain_inv s" "stable H s" "list_all (\<lambda>r. r < length H) rs"
    and "onRoute_loop m beh req rs s = (s', entries, res)"
  shows "map fst entries = snapshot_invocations m beh req H rs \<and>
         list_all removed_before_invocation entries \<and>
         (list_all (declines m beh req H) rs \<longrightarrow> res = Continued) \<and>
         chain_inv s'"
  using assms
proof (induction rs arbitrary: s s' entries res)
  case Nil
  then show ?case by simp
next
  case (Cons r rs)
  from Cons.prems(3) have rH: "r < length H" and rsH: "list_all (\<lambda>r. r < length H) rs"
    by simp_all
  from Cons.prems(2) rH have rs: "r < length (heap s)"
    and same: "url (heap s ! r) = url (H ! r)" "handler (heap s ! r) = handler (H ! r)"
    by (auto simp: stable_def)
  define rh where "rh = heap s ! r"
  have d: "deref s r = Some rh" using rs by (simp add: deref_def rh_def)
  show ?case
  proof (cases "m (url rh) req")
    case False
    with Cons.prems(4) d have "onRoute_loop m beh req rs s = (s', entries, res)" by simp
    from Cons.IH[OF Cons.prems(1,2) rsH this] False same rH show ?thesis
      by (simp add: rh_def declines_def)
  next
    case True
    define s1 where "s1 = (if willExpire rh
                      then s\<lparr>routes := splice1 (indexOf (routes s) r) (routes s)\<rparr> else s)"
    define entry :: invocation where "entry = (r, remaining rh, routes s1)"
    obtain s2 dc where h: "handle beh req r rh s1 = (s2, dc)" by (cases "handle beh req r rh s1")
    have inv1: "chain_inv s1" using Cons.prems(1) by (simp add: s1_def chain_inv_splice)
    have st1: "stable H s1" using Cons.prems(2) by (simp add: s1_def stable_splice)
    have d1: "deref s1 r = Some rh" using rs by (simp add: s1_def deref_def rh_def)
    from handle_props[OF inv1 st1 d1 h]
    have inv2: "chain_inv s2" and st2: "stable H s2" and dc: "dc = decision (beh (handler rh) req)"
      by simp_all
    have ent: "removed_before_invocation entry"
      using distinct_splice1_indexOf[OF chain_inv_distinct[OF Cons.prems(1)], of r]
      by (simp add: removed_before_invocation_def entry_def s1_def expiring_def willExpire_def)
    have step: "onRoute_loop m beh req (r # rs) s =
        (case dc of Inl e \<Rightarrow> (s2, [entry], Rejected e)
         | Inr handled \<Rightarrow>
            let s3 = (if routes s2 = [] then disableInterception s2 else s2)
            in if handled then (s3, [entry], HandledBy r)
               else (case onRoute_loop m beh req rs s3 of
                       (s4, entries, res) \<Rightarrow> (s4, entry # entries, res)))"
      using d True h unfolding s1_def entry_def
      by (cases dc) (simp_all add: Let_def split del: if_split)
    show ?thesis
    proof (cases dc)
      case (Inl e)
      with step Cons.prems(4) have "entries = [entry]" "s' = s2" by simp_all
      with ent Inl dc True same rH inv2 show ?thesis
        by (simp add: rh_def entry_def declines_def)
    next
      case (Inr handled)
      define s3 where "s3 = (if routes s2 = [] then disableInterception s2 else s2)"
      have inv3: "chain_inv s3" using inv2 by (simp add: s3_def chain_inv_disable)
      have st3: "stable H s3" using st2 by (simp add: s3_def stable_disable)
      show ?thesis
      proof (cases handled)
        case True
        with step Cons.prems(4) Inr have "entries = [entry]" "s' = s3"
          by (simp_all add: Let_def s3_def)
        with ent Inr dc True \<open>m (url rh) req\<close> same rH inv3 show ?thesis
          by (simp add: rh_def entry_def declines_def)
      next
        case False
        obtain s4 es r4 where rec: "onRoute_loop m beh req rs s3 = (s4, es, r4)"
          by (cases "onRoute_loop m beh req rs s3") auto
        with step Cons.prems(4) Inr False have eq: "entries = entry # es" "res = r4" "s' = s4"
          by (simp_all add: Let_def s3_def)
        from Cons.IH[OF inv3 st3 rsH rec] eq ent Inr dc False \<open>m (url rh) req\<close> same rH
        show ?thesis by (simp add: rh_def entry_def declines_def)
      qed
    qed
  qed
qed

lemma chain_inv_onRoute:
  "chain_inv s \<Longrightarrow> chain_inv (fst (onRoute matches behaviour request s))"
proof -
  assume inv: "chain_inv s"
  obtain s' entries res where r: "onRoute_loop matches behaviour request (routes s) s = (s', entries, res)"
    by (cases "onRoute_loop matches behaviour request (routes s) s") auto
  have "list_all (\<lambda>r. r < length (heap s)) (routes s)"
    using inv by (simp add: chain_inv_def)
  from onRoute_loop_props[OF inv stable_refl this r] r show ?thesis
    by (simp add: onRoute_def)
qed

lemma gone_route: "gone r s \<Longrightarrow> gone r (route u h tms s)"
  by (auto simp: gone_def route_def Let_def setNetworkInterceptionEnabled_def)

lemma gone_unroute: "gone r s \<Longrightarrow> gone r (unroute u ho s)"
  by (auto simp: gone_def unroute_def Let_def disableInterception_def setNetworkInterceptionEnabled_def)

lemma gone_apply_call: "gone r s \<Longrightarrow> gone r (apply_call c s)"
  by (cases c) (simp_all add: gone_route gone_unroute)

lemma gone_run_calls: "gone r s \<Longrightarrow> gone r (run_calls cs s)"
  by (induction cs arbitrary: s) (simp_all add: gone_apply_call)

lemma gone_splice: "gone r s \<Longrightarrow> gone r (s\<lparr>routes := splice1 i (routes s)\<rparr>)"
  using set_splice1[of i "routes s"] by (auto simp: gone_def)

lemma gone_disable: "gone r s \<Longrightarrow> gone r (disableInterception s)"
  by (simp add: gone_def disableInterception_def setNetworkInterceptionEnabled_def)

lemma gone_handle: "gone r s \<Longrightarrow> handle beh req r' rh s = (s2, d) \<Longrightarrow> gone r s2"
proof -
  assume g: "gone r s" and h: "handle beh req r' rh s = (s2, d)"
  let ?s1 = "s\<lparr>heap := (heap s)[r' := rh\<lparr>remaining := map_option (\<lambda>n. n - 1) (remaining rh)\<rparr>]\<rparr>"
  have "gone r ?s1" using g by (simp add: gone_def)
  moreover have "s2 = run_calls (calls (beh (handler rh) req)) ?s1"
    using h by (simp add: handle_def Let_def)
  ultimately show ?thesis by (simp add: gone_run_calls)
qed

lemma onRoute_loop_gone:
  "gone x s \<Longrightarrow> onRoute_loop m beh req rs s = (s', entries, res) \<Longrightarrow> gone x s'"
proof (induction rs arbitrary: s s' entries res)
  case Nil
  then show ?case by simp
next
  case (Cons r rs)
  show ?case
  proof (cases "deref s r")
    case None
    with Cons.prems(2) have "onRoute_loop m beh req rs s = (s', entries, res)" by simp
    from Cons.IH[OF Cons.prems(1) this] show ?thesis .
  next
    case (Some rh)
    show ?thesis
    proof (cases "m (url rh) req")
      case False
      with Cons.prems(2) Some have "onRoute_loop m beh req rs s = (s', entries, res)" by simp
      from Cons.IH[OF Cons.prems(1) this] show ?thesis .
    next
      case True
      define s1 where "s1 = (if willExpire rh
                      then s\<lparr>routes := splice1 (indexOf (routes s) r) (routes s)\<rparr> else s)"
      define entry :: invocation where "entry = (r, remaining rh, routes s1)"
      obtain s2 dc where h: "handle beh req r rh s1 = (s2, dc)" by (cases "handle beh req r rh s1")
      have g1: "gone x s1" using Cons.prems(1) by (simp add: s1_def gone_splice)
      have g2: "gone x s2" using g1 h by (rule gone_handle)
      have step: "onRoute_loop m beh req (r # rs) s =
        (case dc of Inl e \<Rightarrow> (s2, [entry], Rejected e)
         | Inr handled \<Rightarrow>
            let s3 = (if routes s2 = [] then disableInterception s2 else s2)
            in if handled then (s3, [entry], HandledBy r)
               else (case onRoute_loop m beh req rs s3 of
                       (s4, entries, res) \<Rightarrow> (s4, entry # entries, res)))"
        using Some True h unfolding s1_def entry_def
        by (cases dc) (simp_all add: Let_def split del: if_split)
      show ?thesis
      proof (cases dc)
        case (Inl e)
        with step Cons.prems(2) have "s' = s2" by simp
        with g2 show ?thesis by simp
      next
        case (Inr handled)
        define s3 where "s3 = (if routes s2 = [] then disableInterception s2 else s2)"
        have g3: "gone x s3" using g2 by (simp add: s3_def gone_disable)
        show ?thesis
        proof (cases handled)
          case True
          with step Cons.prems(2) Inr have "s' = s3" by (simp add: Let_def s3_def)
          with g3 show ?thesis by simp
        next
          case False
          obtain s4 es r4 where rec: "onRoute_loop m beh req rs s3 = (s4, es, r4)"
            by (cases "onRoute_loop m beh req rs s3") auto
          with step Cons.prems(2) Inr False have "s' = s4" by (simp add: Let_def s3_def)
          with Cons.IH[OF g3 rec] show ?thesis by simp
        qed
      qed
    qed
  qed
qed

lemma onRoute_loop_final:
  assumes "chain_inv s" "stable H s" "list_all (\<lambda>r. r < length H) rs"
    and "onRoute_loop m beh req rs s = (s', entries, res)"
  shows "res = snapshot_result m beh req H rs \<and> list_all (removed_after s') entries"
  using assms
proof (induction rs arbitrary: s s' entries res)
  case Nil
  then show ?case by simp
next
  case (Cons r rs)
  from Cons.prems(3) have rH: "r < length H" and rsH: "list_all (\<lambda>r. r < length H) rs"
    by simp_all
  from Cons.prems(2) rH have rs: "r < length (heap s)"
    and same: "url (heap s ! r) = url (H ! r)" "handler (heap s ! r) = handler (H ! r)"
    by (auto simp: stable_def)
  define rh where "rh = heap s ! r"
  have d: "deref s r = Some rh" using rs by (simp add: deref_def rh_def)
  show ?case
  proof (cases "m (url rh) req")
    case False
    with Cons.prems(4) d have "onRoute_loop m beh req rs s = (s', entries, res)" by simp
    from Cons.IH[OF Cons.prems(1,2) rsH this] False same rH show ?thesis
      by (simp add: rh_def)
  next
    case True
    define s1 where "s1 = (if willExpire rh
                      then s\<lparr>routes := splice1 (indexOf (routes s) r) (routes s)\<rparr> else s)"
    define entry :: invocation where "entry = (r, remaining rh, routes s1)"
    obtain s2 dc where h: "handle beh req r rh s1 = (s2, dc)" by (cases "handle beh req r rh s1")
    have inv1: "chain_inv s1" using Cons.prems(1) by (simp add: s1_def chain_inv_splice)
    have st1: "stable H s1" using Cons.prems(2) by (simp add: s1_def stable_splice)
    have d1: "deref s1 r = Some rh" using rs by (simp add: s1_def deref_def rh_def)
    from handle_props[OF inv1 st1 d1 h]
    have inv2: "chain_inv s2" and st2: "stable H s2" and dc: "dc = decision (beh (handler rh) req)"
      by simp_all
    have g1: "expiring (remaining rh) \<Longrightarrow> gone r s1"
      using distinct_splice1_indexOf[OF chain_inv_distinct[OF Cons.prems(1)], of r] rs
      by (simp add: gone_def s1_def expiring_def willExpire_def)
    have g2: "expiring (remaining rh) \<Longrightarrow> gone r s2"
      using g1 h by (blast intro: gone_handle)
    have step: "onRoute_loop m beh req (r # rs) s =
        (case dc of Inl e \<Rightarrow> (s2, [entry], Rejected e)
         | Inr handled \<Rightarrow>
            let s3 = (if routes s2 = [] then disableInterception s2 else s2)
            in if handled then (s3, [entry], HandledBy r)
               else (case onRoute_loop m beh req rs s3 of
                       (s4, entries, res) \<Rightarrow> (s4, entry # entries, res)))"
      using d True h unfolding s1_def entry_def
      by (cases dc) (simp_all add: Let_def split del: if_split)
    show ?thesis
    proof (cases dc)
      case (Inl e)
      with step Cons.prems(4) have "entries = [entry]" "s' = s2" "res = Rejected e" by simp_all
      with g2 Inl dc True same rH show ?thesis
        by (auto simp: rh_def entry_def removed_after_def gone_def)
    next
      case (Inr handled)
      define s3 where "s3 = (if routes s2 = [] then disableInterception s2 else s2)"
      have inv3: "chain_inv s3" using inv2 by (simp add: s3_def chain_inv_disable)
      have st3: "stable H s3" using st2 by (simp add: s3_def stable_disable)
      have g3: "expiring (remaining rh) \<Longrightarrow> gone r s3"
        using g2 by (simp add: s3_def gone_disable)
      show ?thesis
      proof (cases handled)
        case True
        with step Cons.prems(4) Inr have "entries = [entry]" "s' = s3" "res = HandledBy r"
          by (simp_all add: Let_def s3_def)
        with g3 Inr dc True \<open>m (url rh) req\<close> same rH show ?thesis
          by (auto simp: rh_def entry_def removed_after_def gone_def)
      next
        case False
        obtain s4 es r4 where rec: "onRoute_loop m beh req rs s3 = (s4, es, r4)"
          by (cases "onRoute_loop m beh req rs s3") auto
        with step Cons.prems(4) Inr False have eq: "entries = entry # es" "res = r4" "s' = s4"
          by (simp_all add: Let_def s3_def)
        have "expiring (remaining rh) \<Longrightarrow> gone r s4"
          using g3 rec by (blast intro: onRoute_loop_gone)
        with Cons.IH[OF inv3 st3 rsH rec] eq Inr dc False \<open>m (url rh) req\<close> same rH
        show ?thesis by (auto simp: rh_def entry_def removed_after_def gone_def)
      qed
    qed
  qed
qed


lemma splice1_Cons_Suc: "splice1 (int k + 1) (x # xs) = x # splice1 (int k) xs"
  by (simp add: splice1_def Let_def min_def nat_add_distrib)

lemma splice1_present: "x \<in> set xs \<Longrightarrow> splice1 (indexOf xs x) xs = remove1 x xs"
proof (induction xs)
  case Nil
  then show ?case by simp
next
  case (Cons y ys)
  show ?case
  proof (cases "y = x")
    case True
    then show ?thesis by (simp add: splice1_def Let_def)
  next
    case False
    with Cons.prems have in_ys: "x \<in> set ys" by simp
    from indexOf_in[OF in_ys] obtain k where k: "indexOf ys x = int k" by (metis nat_0_le)
    with False Cons.IH[OF in_ys] show ?thesis
      using splice1_Cons_Suc[of k y ys] by (simp add: Let_def)
  qed
qed

lemma onRoute_loop_first:
  "onRoute_loop m beh req rs s = (s', entries, res) \<Longrightarrow> entries \<noteq> [] \<Longrightarrow>
   \<exists>r rh. r \<in> set rs \<and> deref s r = Some rh \<and>
     hd entries = (r, remaining rh,
       if willExpire rh then splice1 (indexOf (routes s) r) (routes s) else routes s)"
proof (induction rs)
  case Nil
  then show ?case by simp
next
  case (Cons r rs)
  show ?case
  proof (cases "deref s r")
    case None
    with Cons.prems have "onRoute_loop m beh req rs s = (s', entries, res)" by simp
    from Cons.IH[OF this Cons.prems(2)] show ?thesis by (meson list.set_intros(2))
  next
    case (Some rh)
    show ?thesis
    proof (cases "m (url rh) req")
      case False
      with Cons.prems Some have "onRoute_loop m beh req rs s = (s', entries, res)" by simp
      from Cons.IH[OF this Cons.prems(2)] show ?thesis by (meson list.set_intros(2))
    next
      case True
      define s1 where "s1 = (if willExpire rh
                      then s\<lparr>routes := splice1 (indexOf (routes s) r) (routes s)\<rparr> else s)"
      define entry :: invocation where "entry = (r, remaining rh, routes s1)"
      obtain s2 dc where h: "handle beh req r rh s1 = (s2, dc)" by (cases "handle beh req r rh s1")
      have step: "onRoute_loop m beh req (r # rs) s =
        (case dc of Inl e \<Rightarrow> (s2, [entry], Rejected e)
         | Inr handled \<Rightarrow>
            let s3 = (if routes s2 = [] then disableInterception s2 else s2)
            in if handled then (s3, [entry], HandledBy r)
               else (case onRoute_loop m beh req rs s3 of
                       (s4, entries, res) \<Rightarrow> (s4, entry # entries, res)))"
        using Some True h unfolding s1_def entry_def
        by (cases dc) (simp_all add: Let_def split del: if_split)
      have "hd entries = entry"
        using step Cons.prems(1)
        by (cases dc) (auto simp: Let_def split: if_splits prod.splits)
      then show ?thesis using Some by (auto simp: entry_def s1_def)
    qed
  qed
qed

lemma throwing_dispatch:
  "snd (onRoute (=) throwing_behaviour ''/b'' example_chain) =
     ([(2, None, [2, 1, 0])], Rejected (Error ''boom''))"
  by code_simp

lemma example_chain_inv: "chain_inv example_chain"
  by code_simp

lemma example_dispatch:
  "onRoute (=) example_behaviour ''/b'' example_chain =
     (\<lparr>routes = [3, 2],
        heap = [\<lparr>url = ''/a'', handler = 1, remaining = None\<rparr>,
                \<lparr>url = ''/b'', handler = 2, remaining = Some 0\<rparr>,
                \<lparr>url = ''/b'', handler = 3, remaining = None\<rparr>,
                \<lparr>url = ''/b'', handler = 4, remaining = None\<rparr>],
        interception = True, sent = [True]\<rparr>,
      [(2, None, [2, 1, 0]), (1, Some 1, [3, 2])], Continued)"
  by code_simp

subsection \<open>The claims on the route chain\<close>

text \<open>
  Claim C3, amended. A route event is dispatched over the snapshot of the chain taken when it
  arrives: the handlers invoked, in order, are those that \<open>snapshot_invocations\<close> reads off
  the chain and the store of that moment, whatever \<open>route\<close> and \<open>unroute\<close> calls the
  callbacks make while the dispatch is suspended. Every invoked entry whose remaining count
  reaches zero on this use is out of the live chain at the moment its handler is invoked and
  is still out of the chain the dispatch leaves behind; the first invocation finds the chain
  of dispatch start, less its own handler exactly when that one is expiring. The dispatch
  ends as \<open>snapshot_result\<close> says: if every matching handler of the snapshot resolves
  without conclusively acting, it ends in \<open>route._innerContinue(true)\<close>; a handler that
  throws ends it with that error, and the request is not continued.
\<close>

theorem onRoute_snapshot_expiry_autocontinue:
  assumes "chain_inv s" and "onRoute matches behaviour request s = (s', entries, res)"
  shows "map fst entries = snapshot_invocations matches behaviour request (heap s) (routes s)
       \<and> list_all removed_before_invocation entries
       \<and> list_all (removed_after s') entries
       \<and> (entries \<noteq> [] \<longrightarrow> first_invocation s (hd entries))
       \<and> res = snapshot_result matches behaviour request (heap s) (routes s)
       \<and> (list_all (declines matches behaviour request (heap s)) (routes s) \<longrightarrow> res = Continued)
       \<and> chain_inv s'"
proof -
  have all: "list_all (\<lambda>r. r < length (heap s)) (routes s)"
    using assms(1) by (simp add: chain_inv_def)
  note loop = assms(2)[unfolded onRoute_def]
  have first: "first_invocation s (hd entries)" if ne: "entries \<noteq> []"
  proof -
    from onRoute_loop_first[OF loop ne] obtain r rh where r: "r \<in> set (routes s)"
      and d: "deref s r = Some rh"
      and hd: "hd entries = (r, remaining rh,
         if willExpire rh then splice1 (indexOf (routes s) r) (routes s) else routes s)"
      by blast
    from d have "rh = heap s ! r" by (auto simp: deref_def split: if_splits)
    with hd splice1_present[OF r] show ?thesis by (simp add: first_invocation_def)
  qed
  from onRoute_loop_props[OF assms(1) stable_refl all loop]
       onRoute_loop_final[OF assms(1) stable_refl all loop] first
  show ?thesis by simp
qed

theorem onRoute_snapshot_expiry_autocontinue_witness:
  "chain_inv example_chain \<and>
   routes example_chain = [2, 1, 0] \<and>
   routes (fst (onRoute (=) example_behaviour ''/b'' example_chain)) = [3, 2] \<and>
   snd (onRoute (=) example_behaviour ''/b'' example_chain) =
     ([(2, None, [2, 1, 0]), (1, Some 1, [3, 2])], Continued) \<and>
   snapshot_invocations (=) example_behaviour ''/b'' (heap example_chain) (routes example_chain) = [2, 1] \<and>
   snapshot_result (=) example_behaviour ''/b'' (heap example_chain) (routes example_chain) = Continued \<and>
   list_all removed_before_invocation [(2, None, [2, 1, 0]), (1, Some 1, [3, 2])] \<and>
   list_all (removed_after (fst (onRoute (=) example_behaviour ''/b'' example_chain)))
     [(2, None, [2, 1, 0]), (1, Some 1, [3, 2])] \<and>
   first_invocation example_chain (2, None, [2, 1, 0]) \<and>
   list_all (declines (=) example_behaviour ''/b'' (heap example_chain)) (routes example_chain)"
proof -
  have d: "list_all (declines (=) example_behaviour ''/b'' (heap example_chain)) (routes example_chain)"
    by code_simp
  have r: "routes example_chain = [2, 1, 0]" by code_simp
  from onRoute_snapshot_expiry_autocontinue[OF example_chain_inv example_dispatch]
  show ?thesis using example_chain_inv example_dispatch d r by simp
qed

text \<open>
  The claim as stated continues the request whenever no matching handler conclusively acts:
  with callbacks that throw, no handler acts on the request and the dispatch is rejected
  instead of continuing it.
\<close>

theorem onRoute_autocontinue_counterexample:
  "\<not> list_ex (acts (=) throwing_behaviour ''/b'' (heap example_chain)) (routes example_chain) \<and>
   snd (snd (onRoute (=) throwing_behaviour ''/b'' example_chain)) = Rejected (Error ''boom'') \<and>
   snd (snd (onRoute (=) throwing_behaviour ''/b'' example_chain)) \<noteq> Continued"
proof -
  have "\<not> list_ex (acts (=) throwing_behaviour ''/b'' (heap example_chain)) (routes example_chain)"
    by code_simp
  with throwing_dispatch show ?thesis by simp
qed

text \<open>
  Claim C4. After any sequence of \<open>route\<close> and \<open>unroute\<close> calls on a new context the chain
  holds its live handlers most recently added first (addresses are add times and strictly
  decrease from the front), and the server's flag is set exactly when the chain is occupied.
  A further \<open>route\<close> puts its handler in front and sends one enabling request exactly when
  the chain was empty; a further \<open>unroute\<close> sends one disabling request exactly when it
  leaves the chain empty.
\<close>

theorem route_unroute_lifo_interception:
  "(let s = run_calls cs new_context in
      sorted_wrt (>) (routes s) \<and> list_all (\<lambda>r. r < length (heap s)) (routes s)
    \<and> (interception s \<longleftrightarrow> routes s \<noteq> [])
    \<and> routes (route u h tms s) = length (heap s) # routes s
    \<and> sent (route u h tms s) = sent s @ (if routes s = [] then [True] else [])
    \<and> sent (unroute u' ho s) = sent s @ (if routes (unroute u' ho s) = [] then [False] else []))"
proof -
  define s where "s = run_calls cs (new_context :: ('a, 'b) route_state)"
  have "chain_inv s" unfolding s_def by (rule chain_inv_run_calls[OF chain_inv_new_context])
  moreover have "flag_inv s" unfolding s_def by (rule flag_inv_run_calls[OF flag_inv_new_context])
  moreover have "routes (route u h tms s) = length (heap s) # routes s"
    by (simp add: route_def Let_def setNetworkInterceptionEnabled_def)
  moreover have "sent (route u h tms s) = sent s @ (if routes s = [] then [True] else [])"
    by (simp add: route_def Let_def setNetworkInterceptionEnabled_def)
  moreover have "sent (unroute u' ho s) = sent s @ (if routes (unroute u' ho s) = [] then [False] else [])"
    by (simp add: unroute_def Let_def disableInterception_def setNetworkInterceptionEnabled_def)
  ultimately show ?thesis
    unfolding Let_def s_def[symmetric] by (simp add: chain_inv_def flag_inv_def)
qed

theorem route_unroute_lifo_interception_witness:
  "routes (run_calls [Route ''/a'' (1::nat) None, Route ''/b'' 2 None, Unroute ''/a'' None] new_context) = [1] \<and>
   interception (run_calls [Route ''/a'' (1::nat) None, Route ''/b'' 2 None, Unroute ''/a'' None] new_context) \<and>
   sent (run_calls [Route ''/a'' (1::nat) None, Route ''/b'' 2 None, Unroute ''/a'' None] new_context) = [True] \<and>
   sent (unroute ''/b'' None
          (run_calls [Route ''/a'' (1::nat) None, Route ''/b'' 2 None, Unroute ''/a'' None] new_context)) =
     [True, False] \<and>
   routes (route ''/c'' 3 None
          (run_calls [Route ''/a'' (1::nat) None, Route ''/b'' 2 None, Unroute ''/a'' None] new_context)) =
     [2, 1]"
proof -
  have r: "routes (run_calls [Route ''/a'' (1::nat) None, Route ''/b'' 2 None, Unroute ''/a'' None] new_context) = [1]"
    by code_simp
  have h: "length (heap (run_calls [Route ''/a'' (1::nat) None, Route ''/b'' 2 None, Unroute ''/a'' None] new_context)) = 2"
    by code_simp
  have s: "sent (run_calls [Route ''/a'' (1::nat) None, Route ''/b'' 2 None, Unroute ''/a'' None] new_context) = [True]"
    by code_simp
  have u: "routes (unroute ''/b'' None
          (run_calls [Route ''/a'' (1::nat) None, Route ''/b'' 2 None, Unroute ''/a'' None] new_context)) = []"
    by code_simp
  from route_unroute_lifo_interception
         [of "[Route ''/a'' (1::nat) None, Route ''/b'' 2 None, Unroute ''/a'' None]" "''/c''" 3 None "''/b''" None]
  show ?thesis using r h s u by (simp add: Let_def)
qed

lemma splice1_absent: "x \<notin> set xs \<Longrightarrow> splice1 (indexOf xs x) xs = butlast xs"
proof -
  assume "x \<notin> set xs"
  then have "splice1 (indexOf xs x) xs = take (length xs - 1) xs @ drop (Suc (length xs - 1)) xs"
    by (cases xs) (auto simp: indexOf_notin splice1_def Let_def nat_diff_distrib)
  then show ?thesis by (simp add: butlast_conv_take)
qed

text \<open>
  A handler of the snapshot may have left the live chain by the time its turn comes, removed
  by a callback invoked before it. If it is expiring then, \<open>indexOf\<close> gives \<open>-1\<close> and
  \<open>splice(-1, 1)\<close> takes the last handler out of the live chain (\<open>splice1_absent\<close>). In
  the second example the handler of \<open>/a\<close>, at address \<open>0\<close>, has unlimited uses and does not
  match the request, and it is gone from the chain after the dispatch.
\<close>

theorem onRoute_absent_expiring_removes_last:
  "routes example_chain = [2, 1, 0] \<and>
   routes (fst (onRoute (=) unrouting_behaviour ''/b'' example_chain)) = [3, 2] \<and>
   snd (onRoute (=) unrouting_behaviour ''/b'' example_chain) =
     ([(2, None, [2, 1, 0]), (1, Some 1, [3, 2])], Continued)"
  by code_simp

section \<open>Properties of the exposed bindings\<close>

text \<open>
  Claim C7. An inbound binding call whose name is not in the binding table has no effect at
  all: no callback is invoked, nothing is reported and nothing is thrown. A call whose name is
  registered invokes the registered callback with the forwarded arguments (and the call site,
  for a callback exposed with \<open>exposeBinding\<close>) and reports what the callback returned or threw
  through the call's own response.
\<close>

theorem onBinding_unknown_ignored_known_invoked:
  "(bindings (call_name bindingCall) = None \<longrightarrow> onBinding run bindings bindingCall = []) \<and>
   (bindings (call_name bindingCall) = Some (WithSource f) \<longrightarrow>
      onBinding run bindings bindingCall =
        [Invoke f (Some (call_source bindingCall)) (call_args bindingCall),
         respond (run f (Some (call_source bindingCall)) (call_args bindingCall))]) \<and>
   (bindings (call_name bindingCall) = Some (ArgsOnly f) \<longrightarrow>
      onBinding run bindings bindingCall =
        [Invoke f None (call_args bindingCall),
         respond (run f None (call_args bindingCall))])"
  by (simp add: onBinding_def bindingCall_call_def)

theorem onBinding_unknown_ignored_known_invoked_witness:
  "(\<exists>bs. exposeFunction None ''greet'' (7::nat) Map.empty = Inr bs \<and>
     onBinding greeter bs \<lparr>call_name = ''greet'', call_source = ''page'', call_args = [''world'']\<rparr> =
       [Invoke 7 None [''world''], Resolve ''hello world''] \<and>
     onBinding greeter bs \<lparr>call_name = ''ghost'', call_source = ''page'', call_args = [''world'']\<rparr> = [])"
proof -
  let ?bs = "(Map.empty :: nat bindings)(''greet'' \<mapsto> ArgsOnly 7)"
  have e: "exposeFunction None ''greet'' (7::nat) Map.empty = Inr ?bs"
    by (simp add: exposeFunction_def)
  have k: "?bs ''greet'' = Some (ArgsOnly 7)" and u: "?bs ''ghost'' = None"
    by simp_all
  from onBinding_unknown_ignored_known_invoked
         [of ?bs "\<lparr>call_name = ''greet'', call_source = ''page'', call_args = [''world'']\<rparr>" greeter 7]
       onBinding_unknown_ignored_known_invoked
         [of ?bs "\<lparr>call_name = ''ghost'', call_source = ''page'', call_args = [''world'']\<rparr>" greeter 7]
  have "onBinding greeter ?bs \<lparr>call_name = ''greet'', call_source = ''page'', call_args = [''world'']\<rparr> =
       [Invoke 7 None [''world''], Resolve ''hello world'']"
    and "onBinding greeter ?bs \<lparr>call_name = ''ghost'', call_source = ''page'', call_args = [''world'']\<rparr> = []"
    using k u by simp_all
  with e show ?thesis by blast
qed



section \<open>Properties of waitForEvent\<close>

lemma registrations_other:
  "event \<noteq> Events_BrowserContext_Close \<Longrightarrow>
   waitForEvent_registrations event predicate timeout =
     [RejectOnTimeout timeout event,
      RejectOnEvent Events_BrowserContext_Close (Error ''Context closed''),
      ResolveOnEvent event predicate]"
  by (simp add: waitForEvent_registrations_def createForEvent_def rejectOnTimeout_def
                rejectOnEvent_def waiter_waitForEvent_def)

lemma registrations_close:
  "waitForEvent_registrations Events_BrowserContext_Close predicate timeout =
     [RejectOnTimeout timeout Events_BrowserContext_Close,
      ResolveOnEvent Events_BrowserContext_Close predicate]"
  by (simp add: waitForEvent_registrations_def createForEvent_def rejectOnTimeout_def
                waiter_waitForEvent_def)

lemma deliver_registrations:
  "deliver sg (waitForEvent_registrations event predicate timeout) =
     (if sg = TimerElapsed then Some (RejectedWith (TimeoutError timeout event))
      else if aborting event sg then Some (RejectedWith (Error ''Context closed''))
      else if qualifying event predicate sg then Some (Fulfilled (case sg of Emit name p \<Rightarrow> p))
      else None)"
proof (cases "event = Events_BrowserContext_Close")
  case True
  then show ?thesis
    by (cases sg) (simp_all add: registrations_close aborting_def)
next
  case False
  then show ?thesis
    by (cases sg) (auto simp: registrations_other aborting_def)
qed

lemma settle_first:
  "list_all (\<lambda>sg. deliver sg ls = None \<or> deliver sg ls = Some st) pre \<Longrightarrow>
   deliver sg0 ls = Some st \<Longrightarrow> settle ls (pre @ sg0 # post) = Some st"
  by (induction pre) auto

text \<open>
  Claim C5, amended. If, up to the moment the timer of the wait runs out, no qualifying event
  has been emitted and, for an awaited event other than the close event, the context has not
  closed, the wait rejects with the \<open>TimeoutError\<close> of its time-out and event, whatever is
  emitted afterwards.
\<close>

theorem waitForEvent_timeout:
  assumes "list_all (\<lambda>sg. \<not> qualifying event predicate sg \<and> \<not> aborting event sg) pre"
  shows "waitForEvent event predicate timeout (pre @ TimerElapsed # post) =
           Some (RejectedWith (TimeoutError timeout event))"
  unfolding waitForEvent_def
proof (rule settle_first)
  show "deliver TimerElapsed (waitForEvent_registrations event predicate timeout) =
          Some (RejectedWith (TimeoutError timeout event))"
    by (simp add: deliver_registrations)
  show "list_all (\<lambda>sg. deliver sg (waitForEvent_registrations event predicate timeout) = None \<or>
          deliver sg (waitForEvent_registrations event predicate timeout) =
            Some (RejectedWith (TimeoutError timeout event))) pre"
    using assms by (simp add: list_all_iff deliver_registrations)
qed

theorem waitForEvent_timeout_witness:
  "list_all (\<lambda>sg. \<not> qualifying ''page'' (Some (\<lambda>n. 5 < n)) sg \<and> \<not> aborting ''page'' sg)
     [Emit ''request'' (9::nat), Emit ''page'' 3] \<and>
   waitForEvent ''page'' (Some (\<lambda>n. 5 < n)) 30000
     ([Emit ''request'' (9::nat), Emit ''page'' 3] @ TimerElapsed # [Emit ''page'' 8]) =
     Some (RejectedWith (TimeoutError 30000 ''page''))"
proof -
  have h: "list_all (\<lambda>sg. \<not> qualifying ''page'' (Some (\<lambda>n. 5 < n)) sg \<and> \<not> aborting ''page'' sg)
     [Emit ''request'' (9::nat), Emit ''page'' 3]"
    by (simp add: accepts_def aborting_def Events_BrowserContext_Close_def)
  from waitForEvent_timeout[OF h, of 30000 "[Emit ''page'' 8]"] h show ?thesis by simp
qed

text \<open>
  The claim as stated leaves out the close event: without any qualifying event before the
  timer, a wait for \<open>page\<close> on a context that closes first rejects with
  \<open>Error('Context closed')\<close>, not with a \<open>TimeoutError\<close>.
\<close>

theorem waitForEvent_timeout_counterexample:
  "list_all (\<lambda>sg. \<not> qualifying ''page'' None sg) [Emit ''close'' (0::nat)] \<and>
   waitForEvent ''page'' None 30000 ([Emit ''close'' (0::nat)] @ TimerElapsed # []) =
     Some (RejectedWith (Error ''Context closed'')) \<and>
   waitForEvent ''page'' None 30000 ([Emit ''close'' (0::nat)] @ TimerElapsed # []) \<noteq>
     Some (RejectedWith (TimeoutError 30000 ''page''))"
  by (simp add: waitForEvent_def deliver_registrations aborting_def Events_BrowserContext_Close_def)

text \<open>
  Claim C6, amended. For an awaited event other than the close event: if the close event is
  emitted while the wait is pending (no qualifying event and no time-out before it), the wait
  rejects with \<open>Error('Context closed')\<close>; if a qualifying event is emitted first and the
  close event right after it, the wait resolves with the payload of that event. The
  registrations are made in the order time-out, abort, match, so the abort listener is
  registered before the match listener; the two listen to different events, and the outcome
  follows the order in which the events are emitted.
\<close>

theorem waitForEvent_close_aborts_event_first_resolves:
  assumes "event \<noteq> Events_BrowserContext_Close"
  shows "(list_all (\<lambda>sg. \<not> qualifying event predicate sg \<and> sg \<noteq> TimerElapsed) pre \<longrightarrow>
            waitForEvent event predicate timeout (pre @ Emit Events_BrowserContext_Close q # post) =
              Some (RejectedWith (Error ''Context closed''))) \<and>
         (list_all (\<lambda>sg. \<not> qualifying event predicate sg \<and> \<not> is_close sg \<and> sg \<noteq> TimerElapsed) pre \<and>
          accepts predicate p \<longrightarrow>
            waitForEvent event predicate timeout
              (pre @ Emit event p # Emit Events_BrowserContext_Close q # post') = Some (Fulfilled p)) \<and>
         waitForEvent_registrations event predicate timeout =
           [RejectOnTimeout timeout event,
            RejectOnEvent Events_BrowserContext_Close (Error ''Context closed''),
            ResolveOnEvent event predicate] \<and>
         registered_before is_abort is_match (waitForEvent_registrations event predicate timeout)"
proof (intro conjI impI)
  let ?ls = "waitForEvent_registrations event predicate timeout"
  show "?ls = [RejectOnTimeout timeout event,
            RejectOnEvent Events_BrowserContext_Close (Error ''Context closed''),
            ResolveOnEvent event predicate]"
    using assms by (rule registrations_other)
  then show "registered_before is_abort is_match ?ls" by simp
  {
    assume pre: "list_all (\<lambda>sg. \<not> qualifying event predicate sg \<and> sg \<noteq> TimerElapsed) pre"
    show "waitForEvent event predicate timeout (pre @ Emit Events_BrowserContext_Close q # post) =
              Some (RejectedWith (Error ''Context closed''))"
      unfolding waitForEvent_def
    proof (rule settle_first)
      show "deliver (Emit Events_BrowserContext_Close q) ?ls = Some (RejectedWith (Error ''Context closed''))"
        using assms by (simp add: deliver_registrations aborting_def)
      show "list_all (\<lambda>sg. deliver sg ?ls = None \<or>
              deliver sg ?ls = Some (RejectedWith (Error ''Context closed''))) pre"
        using pre by (simp add: list_all_iff deliver_registrations)
    qed
  }
  {
    assume "list_all (\<lambda>sg. \<not> qualifying event predicate sg \<and> \<not> is_close sg \<and> sg \<noteq> TimerElapsed) pre \<and>
          accepts predicate p"
    then have pre: "list_all (\<lambda>sg. \<not> qualifying event predicate sg \<and> \<not> is_close sg \<and> sg \<noteq> TimerElapsed) pre"
      and p: "accepts predicate p" by simp_all
    show "waitForEvent event predicate timeout
              (pre @ Emit event p # Emit Events_BrowserContext_Close q # post') = Some (Fulfilled p)"
      unfolding waitForEvent_def
    proof (rule settle_first)
      show "deliver (Emit event p) ?ls = Some (Fulfilled p)"
        using assms p by (simp add: deliver_registrations aborting_def)
      show "list_all (\<lambda>sg. deliver sg ?ls = None \<or> deliver sg ?ls = Some (Fulfilled p)) pre"
        using pre by (simp add: list_all_iff deliver_registrations aborting_def)
    qed
  }
qed

theorem waitForEvent_close_aborts_event_first_resolves_witness:
  "''page'' \<noteq> Events_BrowserContext_Close \<and>
   waitForEvent ''page'' None 30000 ([Emit ''request'' (1::nat)] @ Emit ''close'' 2 # [Emit ''page'' 3]) =
     Some (RejectedWith (Error ''Context closed'')) \<and>
   waitForEvent ''page'' None 30000 ([Emit ''request'' (1::nat)] @ Emit ''page'' 3 # Emit ''close'' 2 # []) =
     Some (Fulfilled 3) \<and>
   registered_before is_abort is_match (waitForEvent_registrations ''page'' None 30000 :: nat listener list)"
proof -
  have h: "''page'' \<noteq> Events_BrowserContext_Close"
    by (simp add: Events_BrowserContext_Close_def)
  have a: "list_all (\<lambda>sg. \<not> qualifying ''page'' None sg \<and> sg \<noteq> TimerElapsed) [Emit ''request'' (1::nat)]"
    by simp
  have b: "list_all (\<lambda>sg. \<not> qualifying ''page'' None sg \<and> \<not> is_close sg \<and> sg \<noteq> TimerElapsed)
             [Emit ''request'' (1::nat)] \<and> accepts None (3::nat)"
    by (simp add: accepts_def Events_BrowserContext_Close_def)
  from waitForEvent_close_aborts_event_first_resolves
         [OF h, of None "[Emit ''request'' (1::nat)]" 30000 2 "[Emit ''page'' 3]" 3 "[]"]
  show ?thesis using h a b by (simp add: Events_BrowserContext_Close_def)
qed

text \<open>
  The claim as stated has the match listener registered before the abort listener; in
  \<open>waitForEvent\<close> the call of \<open>rejectOnEvent\<close> precedes that of \<open>waiter.waitForEvent\<close>.
\<close>

theorem waitForEvent_match_first_counterexample:
  "\<not> registered_before is_match is_abort (waitForEvent_registrations ''page'' None 30000 :: nat listener list)"
  by (simp add: waitForEvent_registrations_def createForEvent_def rejectOnTimeout_def
                rejectOnEvent_def waiter_waitForEvent_def Events_BrowserContext_Close_def)




section \<open>Properties of close\<close>

subsection \<open>Running steps\<close>

lemma perform_trace:
  "perform env a w = (w1, r) \<Longrightarrow> trace w1 = (if r = Blocked then trace w else trace w @ [a])"
  by (cases a) (auto simp: perform_def split: if_splits option.splits)

lemma run_steps_append:
  "run_steps env (as @ bs) w =
     (case run_steps env as w of (w1, Completed) \<Rightarrow> run_steps env bs w1 | (w1, r) \<Rightarrow> (w1, r))"
proof (induction as arbitrary: w)
  case Nil
  then show ?case by simp
next
  case (Cons a as)
  obtain w1 r where p: "perform env a w = (w1, r)" by (cases "perform env a w")
  show ?case using Cons.IH[of w1] p by (cases r) simp_all
qed

lemma run_steps_Completed_trace:
  "run_steps env as w = (w1, Completed) \<Longrightarrow> trace w1 = trace w @ as"
proof (induction as arbitrary: w)
  case Nil
  then show ?case by simp
next
  case (Cons a as)
  obtain w2 r where p: "perform env a w = (w2, r)" by (cases "perform env a w")
  with Cons.prems have r: "r = Completed" and rest: "run_steps env as w2 = (w1, Completed)"
    by (cases r; simp)+
  from perform_trace[OF p] r have "trace w2 = trace w @ [a]" by simp
  with Cons.IH[OF rest] show ?case by simp
qed

lemma run_steps_trace_prefix:
  "run_steps env as w = (w1, r) \<Longrightarrow> \<exists>rest. trace w1 = trace w @ rest"
proof (induction as arbitrary: w)
  case Nil
  then show ?case by simp
next
  case (Cons a as)
  obtain w2 r2 where p: "perform env a w = (w2, r2)" by (cases "perform env a w")
  from perform_trace[OF p] obtain x where x: "trace w2 = trace w @ x" by (cases "r2 = Blocked") auto
  show ?case
  proof (cases r2)
    case Completed
    with Cons.prems p have "run_steps env as w2 = (w1, r)" by simp
    from Cons.IH[OF this] x show ?thesis by auto
  next
    case (Threw e)
    with Cons.prems p have "w1 = w2" by simp
    with x show ?thesis by auto
  next
    case Blocked
    with Cons.prems p have "w1 = w2" by simp
    with x show ?thesis by auto
  qed
qed

lemma har_actions_head: "\<exists>rest. har_actions (harId, ps) = HarExport harId # rest"
  by (simp add: har_actions_def Let_def)

lemma perform_fails:
  "a \<noteq> AwaitClosed \<Longrightarrow> env (trace w) a = Some e \<Longrightarrow>
   perform env a w = (w\<lparr>trace := trace w @ [a]\<rparr>, Threw e)"
  by (simp add: perform_def)

lemma export_fails_prefix:
  "snd (run_steps export_fails ((if True then [OnWillCloseContext] else []) @
         concat (map har_actions [(''1'', \<lparr>path = ''one.har'', content = Some Embed\<rparr>)])) new_world) = Completed"
  by code_simp

lemma export_fails_prefix_trace:
  "trace (fst (run_steps export_fails ((if True then [OnWillCloseContext] else []) @
         concat (map har_actions [(''1'', \<lparr>path = ''one.har'', content = Some Embed\<rparr>)])) new_world)) =
     [OnWillCloseContext, HarExport ''1'', SaveAs ''1'' PlainHar ''one.har'', ArtifactDelete ''1'']"
  by code_simp

subsection \<open>The claims on the HAR recorders\<close>

text \<open>
  Claim C2, amended. During context close the recordings are exported in registration order
  and the first export that fails ends the drain: when the hook and the recordings before a
  session have gone through and the export of that session fails, \<open>close\<close> stops right
  there. No later session is exported, the close request is not sent, and the caller gets that
  one error at once, unless \<open>isSafeCloseError\<close> accepts it, in which case \<open>close\<close> returns
  normally.
\<close>

theorem close_stops_at_failed_export:
  assumes "run_steps env ((if hook then [OnWillCloseContext] else []) @ concat (map har_actions before)) w =
             (w1, Completed)"
    and "env (trace w1) (HarExport harId) = Some e"
  shows "close isSafeCloseError env hook (before @ (harId, harParams) # after) w =
           (w1\<lparr>trace := trace w1 @ [HarExport harId]\<rparr>, settled isSafeCloseError e)"
proof -
  obtain rest where rest: "har_actions (harId, harParams) = HarExport harId # rest"
    using har_actions_head by blast
  define pre where "pre = (if hook then [OnWillCloseContext] else []) @ concat (map har_actions before)"
  define post where "post = rest @ concat (map har_actions after) @ [ChannelClose, AwaitClosed]"
  have split: "close_actions hook (before @ (harId, harParams) # after) = pre @ HarExport harId # post"
    by (simp add: close_actions_def rest pre_def post_def)
  have a: "run_steps env pre w = (w1, Completed)"
    using assms(1) by (simp only: pre_def)
  have b: "run_steps env (HarExport harId # post) w1 =
             (w1\<lparr>trace := trace w1 @ [HarExport harId]\<rparr>, Threw e)"
    using perform_fails[of "HarExport harId" env w1 e] assms(2) by simp
  have "run_steps env (close_actions hook (before @ (harId, harParams) # after)) w =
      (w1\<lparr>trace := trace w1 @ [HarExport harId]\<rparr>, Threw e)"
    unfolding split run_steps_append a using b by simp
  then show ?thesis by (simp add: close_def)
qed

theorem close_stops_at_failed_export_witness:
  "trace (fst (close (\<lambda>e. False) export_fails True three_recorders new_world)) =
     [OnWillCloseContext, HarExport ''1'', SaveAs ''1'' PlainHar ''one.har'', ArtifactDelete ''1'',
      HarExport ''2''] \<and>
   snd (close (\<lambda>e. False) export_fails True three_recorders new_world) = Thrown (Error ''export failed'')"
proof -
  define w1 where "w1 = fst (run_steps export_fails ((if True then [OnWillCloseContext] else []) @
         concat (map har_actions [(''1'', \<lparr>path = ''one.har'', content = Some Embed\<rparr>)])) new_world)"
  have a: "run_steps export_fails ((if True then [OnWillCloseContext] else []) @
         concat (map har_actions [(''1'', \<lparr>path = ''one.har'', content = Some Embed\<rparr>)])) new_world =
         (w1, Completed)"
    using export_fails_prefix unfolding w1_def by (simp add: prod_eq_iff)
  have b: "export_fails (trace w1) (HarExport ''2'') = Some (Error ''export failed'')"
    by (simp add: export_fails_def)
  have t: "trace w1 = [OnWillCloseContext, HarExport ''1'', SaveAs ''1'' PlainHar ''one.har'', ArtifactDelete ''1'']"
    unfolding w1_def by (rule export_fails_prefix_trace)
  from close_stops_at_failed_export[OF a b, of "\<lambda>e. False" "\<lparr>path = ''two.zip'', content = None\<rparr>"
         "[(''3'', \<lparr>path = ''three.har'', content = Some Attach\<rparr>)]"]
  show ?thesis using t by (simp add: three_recorders_def settled_def)
qed

text \<open>
  The claim as stated has every session attempted whatever fails: with three recorders and
  a failing export of the second one, the third recording is never exported.
\<close>

theorem close_export_failure_counterexample:
  "HarExport ''3'' \<notin> set (trace (fst (close (\<lambda>e. False) export_fails True three_recorders new_world))) \<and>
   ChannelClose \<notin> set (trace (fst (close (\<lambda>e. False) export_fails True three_recorders new_world))) \<and>
   snd (close (\<lambda>e. False) export_fails True three_recorders new_world) = Thrown (Error ''export failed'')"
  by code_simp

lemma perform_Completed:
  "perform env a w = (w1, Completed) \<Longrightarrow> w1 = effect a (w\<lparr>trace := trace w @ [a]\<rparr>)"
  by (cases a) (auto simp: perform_def split: if_splits option.splits)

lemma run_steps_Completed_Cons:
  "run_steps env (a # as) w = (w2, Completed) \<Longrightarrow>
   run_steps env as (effect a (w\<lparr>trace := trace w @ [a]\<rparr>)) = (w2, Completed)"
proof -
  assume r: "run_steps env (a # as) w = (w2, Completed)"
  obtain w1 r1 where p: "perform env a w = (w1, r1)" by (cases "perform env a w")
  with r have "r1 = Completed" by (cases r1) simp_all
  with p r perform_Completed[of env a w w1] show ?thesis by simp
qed

lemma har_session_files:
  assumes "run_steps env (har_actions (harId, harParams)) w1 = (w2, Completed)"
  shows "files w2 (path harParams) =
           Some (if endsWith (path harParams) ''.zip'' then ZipArchive else PlainHar)"
proof (cases "endsWith (path harParams) ''.zip''")
  case True
  then have "har_actions (harId, harParams) =
      [HarExport harId, SaveAs harId ZipArchive (path harParams), ArtifactDelete harId]"
    by (simp add: har_actions_def)
  with assms have "run_steps env [HarExport harId, SaveAs harId ZipArchive (path harParams), ArtifactDelete harId] w1 = (w2, Completed)"
    by simp
  from run_steps_Completed_Cons[OF run_steps_Completed_Cons[OF run_steps_Completed_Cons[OF this]]] True
  show ?thesis by auto
next
  case False
  show ?thesis
  proof (cases "content harParams = Some Attach")
    case True
    with False have "har_actions (harId, harParams) =
      [HarExport harId, SaveAs harId ZipArchive (path harParams @ ''.tmp''),
       HarUnzip (path harParams @ ''.tmp'') (path harParams), ArtifactDelete harId]"
      by (simp add: har_actions_def)
    with assms have "run_steps env [HarExport harId, SaveAs harId ZipArchive (path harParams @ ''.tmp''),
       HarUnzip (path harParams @ ''.tmp'') (path harParams), ArtifactDelete harId] w1 = (w2, Completed)"
      by simp
    from run_steps_Completed_Cons[OF run_steps_Completed_Cons[OF run_steps_Completed_Cons[OF run_steps_Completed_Cons[OF this]]]] False
    show ?thesis by auto
  next
    case notattach: False
    with False have "har_actions (harId, harParams) =
      [HarExport harId, SaveAs harId PlainHar (path harParams), ArtifactDelete harId]"
      by (simp add: har_actions_def)
    with assms have "run_steps env [HarExport harId, SaveAs harId PlainHar (path harParams), ArtifactDelete harId] w1 = (w2, Completed)"
      by simp
    from run_steps_Completed_Cons[OF run_steps_Completed_Cons[OF run_steps_Completed_Cons[OF this]]] False
    show ?thesis by auto
  qed
qed

lemma har_actions_last: "last (har_actions (harId, harParams)) = ArtifactDelete harId"
  by (simp add: har_actions_def Let_def)

lemma run_steps_append_Completed:
  assumes "run_steps env (as @ bs) w = (w2, Completed)"
  shows "\<exists>w1. run_steps env as w = (w1, Completed) \<and> run_steps env bs w1 = (w2, Completed)"
proof -
  obtain w1 r where a: "run_steps env as w = (w1, r)" by (cases "run_steps env as w")
  with assms have "r = Completed" by (cases r) (simp_all add: run_steps_append)
  with a assms show ?thesis by (simp add: run_steps_append)
qed

lemma all_succeed_completes:
  "snd (run_steps (\<lambda>tr a. None) (close_actions True three_recorders) new_world) = Completed"
  by code_simp

text \<open>
  Claim C9, amended. At a context close whose steps all succeed, the steps of each registered
  session leave at its destination path a compressed archive exactly when the path ends in
  \<open>.zip\<close>; otherwise they leave a plain HAR file, also when the content mode is
  \<open>attach\<close>, where the compressed export is saved beside it under the path with \<open>.tmp\<close>
  appended and unzipped to the path. The last step of the session deletes the exported
  artifact. \<open>w1\<close> and \<open>w2\<close> are the worlds before and after the steps of the session.
\<close>

theorem close_har_file_form:
  assumes "run_steps env (close_actions hook (before @ (harId, harParams) # after)) w = (w', Completed)"
  shows "\<exists>w1 w2.
           run_steps env ((if hook then [OnWillCloseContext] else []) @ concat (map har_actions before)) w =
             (w1, Completed) \<and>
           run_steps env (har_actions (harId, harParams)) w1 = (w2, Completed) \<and>
           files w2 (path harParams) =
             Some (if endsWith (path harParams) ''.zip'' then ZipArchive else PlainHar) \<and>
           trace w2 = trace w1 @ har_actions (harId, harParams) \<and>
           last (trace w2) = ArtifactDelete harId \<and>
           (\<exists>rest. trace w' = trace w2 @ rest)"
proof -
  define pre where "pre = (if hook then [OnWillCloseContext] else []) @ concat (map har_actions before)"
  define post where "post = concat (map har_actions after) @ [ChannelClose, AwaitClosed]"
  have split: "close_actions hook (before @ (harId, harParams) # after) =
                 pre @ (har_actions (harId, harParams) @ post)"
    by (simp add: close_actions_def pre_def post_def)
  from assms obtain w1 where a: "run_steps env pre w = (w1, Completed)"
    and r: "run_steps env (har_actions (harId, harParams) @ post) w1 = (w', Completed)"
    unfolding split using run_steps_append_Completed by blast
  from run_steps_append_Completed[OF r] obtain w2
    where b: "run_steps env (har_actions (harId, harParams)) w1 = (w2, Completed)"
    and c: "run_steps env post w2 = (w', Completed)" by blast
  have t: "trace w2 = trace w1 @ har_actions (harId, harParams)"
    using b by (rule run_steps_Completed_trace)
  have ne: "har_actions (harId, harParams) \<noteq> []" using har_actions_head[of harId harParams] by auto
  have l: "last (trace w2) = ArtifactDelete harId"
    using t ne by (simp add: har_actions_last)
  from run_steps_trace_prefix[OF c] have "\<exists>rest. trace w' = trace w2 @ rest" .
  with a b har_session_files[OF b] t l show ?thesis unfolding pre_def by blast
qed

theorem close_har_file_form_witness:
  "snd (run_steps (\<lambda>tr a. None) (close_actions True three_recorders) new_world) = Completed \<and>
   (\<exists>w1 w2.
      run_steps (\<lambda>tr a. None) (har_actions (''3'', \<lparr>path = ''three.har'', content = Some Attach\<rparr>)) w1 =
        (w2, Completed) \<and>
      files w2 ''three.har'' = Some PlainHar \<and>
      last (trace w2) = ArtifactDelete ''3'')"
proof -
  define w' where "w' = fst (run_steps (\<lambda>tr a. None) (close_actions True three_recorders) new_world)"
  have a: "run_steps (\<lambda>tr a. None)
             (close_actions True
               ([(''1'', \<lparr>path = ''one.har'', content = Some Embed\<rparr>),
                 (''2'', \<lparr>path = ''two.zip'', content = None\<rparr>)] @
                (''3'', \<lparr>path = ''three.har'', content = Some Attach\<rparr>) # [])) new_world = (w', Completed)"
    using all_succeed_completes unfolding w'_def by (simp add: prod_eq_iff three_recorders_def)
  have z: "\<not> endsWith ''three.har'' ''.zip''" by (simp add: endsWith_def)
  from close_har_file_form[OF a] z all_succeed_completes show ?thesis by auto
qed

text \<open>
  The claim as stated has a compressed archive at the destination whenever the content mode
  is \<open>attach\<close>: for the third example recorder, with mode \<open>attach\<close> and the path
  \<open>three.har\<close>, a close in which every step succeeds leaves a plain HAR file there.
\<close>

theorem close_har_file_form_counterexample:
  "content (snd (three_recorders ! 2)) = Some Attach \<and>
   snd (close (\<lambda>e. False) (\<lambda>tr a. None) True three_recorders new_world) = Returned \<and>
   files (fst (close (\<lambda>e. False) (\<lambda>tr a. None) True three_recorders new_world)) (path (snd (three_recorders ! 2))) =
     Some PlainHar \<and>
   files (fst (close (\<lambda>e. False) (\<lambda>tr a. None) True three_recorders new_world)) (path (snd (three_recorders ! 2))) \<noteq>
     Some ZipArchive"
  by code_simp

subsection \<open>Concurrent calls\<close>

text \<open>A single call of \<open>close\<close> is one caller scheduled alone until it has settled.\<close>

lemma schedule_settled_alone:
  "schedule isSafeCloseError env (replicate k 0) (w, [Settled out]) = (w, [Settled out])"
  by (induction k) simp_all

lemma single_caller_run:
  assumes "run_steps env as w = (w1, r)" and "r \<noteq> Blocked"
  shows "schedule isSafeCloseError env (replicate (Suc (length as)) 0) (w, [Running as]) =
           (w1, [Settled (case r of Completed \<Rightarrow> Returned
                          | Threw e \<Rightarrow> settled isSafeCloseError e | Blocked \<Rightarrow> Pending)])"
  using assms
proof (induction as arbitrary: w)
  case Nil
  then show ?case by auto
next
  case (Cons a as)
  obtain w2 r2 where p: "perform env a w = (w2, r2)" by (cases "perform env a w")
  show ?case
  proof (cases r2)
    case Completed
    with Cons.prems p have "run_steps env as w2 = (w1, r)" by simp
    from Cons.IH[OF this Cons.prems(2)] p Completed show ?thesis by simp
  next
    case (Threw e)
    with Cons.prems p have "w1 = w2" "r = Threw e" by simp_all
    with p Threw schedule_settled_alone[of isSafeCloseError env "Suc (length as)" w2]
    show ?thesis by simp
  next
    case Blocked
    with Cons.prems p show ?thesis by simp
  qed
qed

lemma close_is_single_caller:
  assumes "close isSafeCloseError env hook harRecorders w = (w1, out)" and "out \<noteq> Pending"
  shows "schedule isSafeCloseError env (replicate (Suc (length (close_actions hook harRecorders))) 0)
           (w, concurrent_close 1 hook harRecorders) = (w1, [Settled out])"
proof -
  obtain w2 r where r: "run_steps env (close_actions hook harRecorders) w = (w2, r)"
    by (cases "run_steps env (close_actions hook harRecorders) w")
  with assms have nb: "r \<noteq> Blocked" by (cases r) (auto simp: close_def)
  from r assms(1) have "w1 = w2"
    and "out = (case r of Completed \<Rightarrow> Returned
                | Threw e \<Rightarrow> settled isSafeCloseError e | Blocked \<Rightarrow> Pending)"
    by (cases r; simp add: close_def)+
  with single_caller_run[OF r nb, of isSafeCloseError] show ?thesis
    by (simp add: concurrent_close_def)
qed

lemma hook_not_in_har_actions: "OnWillCloseContext \<notin> set (har_actions x)"
  by (cases x) (simp add: har_actions_def Let_def)

lemma sum_list_map_update:
  "i < length xs \<Longrightarrow>
   sum_list (map f (xs[i := y])) + f (xs ! i) = sum_list (map f xs) + (f y :: nat)"
proof (induction xs arbitrary: i)
  case Nil
  then show ?case by simp
next
  case (Cons x xs)
  then show ?case by (cases i) auto
qed

lemma step_caller_count:
  assumes "only_at_head b c" and "step_caller isSafeCloseError env w c = (w1, c1)"
  shows "only_at_head b c1 \<and>
         count_list (trace w1) b + steps_left b c1 = count_list (trace w) b + steps_left b c"
proof (cases c)
  case (Settled out)
  with assms show ?thesis by auto
next
  case (Running as)
  show ?thesis
  proof (cases as)
    case Nil
    with Running assms show ?thesis by auto
  next
    case (Cons a rest)
    obtain w2 r where p: "perform env a w = (w2, r)" by (cases "perform env a w")
    from assms(1) Running Cons have nohook: "b \<notin> set rest" by simp
    then have zero: "count_list rest b = 0" by (simp add: count_list_0_iff)
    from nohook have tl: "b \<notin> set (tl rest)"
      by (cases rest) auto
    show ?thesis
    proof (cases r)
      case Completed
      with assms(2) Running Cons p have "w1 = w2" "c1 = Running rest" by simp_all
      with perform_trace[OF p] Completed Running Cons zero tl show ?thesis by simp
    next
      case (Threw e)
      with assms(2) Running Cons p have "w1 = w2" "c1 = Settled (settled isSafeCloseError e)" by simp_all
      with perform_trace[OF p] Threw Running Cons zero show ?thesis by simp
    next
      case Blocked
      with assms(2) Running Cons p have "w1 = w" "c1 = c" by simp_all
      with assms(1) show ?thesis by simp
    qed
  qed
qed

lemma schedule_count:
  assumes "list_all (only_at_head b) cs" and "schedule isSafeCloseError env sched (w, cs) = (w1, cs1)"
  shows "list_all (only_at_head b) cs1 \<and> length cs1 = length cs \<and>
         count_list (trace w1) b + sum_list (map (steps_left b) cs1) =
           count_list (trace w) b + sum_list (map (steps_left b) cs)"
  using assms
proof (induction sched arbitrary: w cs)
  case Nil
  then show ?case by simp
next
  case (Cons i sched)
  show ?case
  proof (cases "i < length cs")
    case False
    with Cons.prems(2) have "schedule isSafeCloseError env sched (w, cs) = (w1, cs1)" by simp
    from Cons.IH[OF Cons.prems(1) this] show ?thesis .
  next
    case True
    obtain w2 c2 where s: "step_caller isSafeCloseError env w (cs ! i) = (w2, c2)"
      by (cases "step_caller isSafeCloseError env w (cs ! i)")
    from Cons.prems(1) True have h: "only_at_head b (cs ! i)" by (simp add: list_all_length)
    from step_caller_count[OF h s]
    have h2: "only_at_head b c2"
      and cnt: "count_list (trace w2) b + steps_left b c2 =
                count_list (trace w) b + steps_left b (cs ! i)" by simp_all
    have all2: "list_all (only_at_head b) (cs[i := c2])"
      using Cons.prems(1) h2 by (auto simp: list_all_iff dest: set_update_subset_insert[THEN subsetD])
    from Cons.prems(2) True s have "schedule isSafeCloseError env sched (w2, cs[i := c2]) = (w1, cs1)"
      by simp
    from Cons.IH[OF all2 this] sum_list_map_update[OF True, of "steps_left b" c2] cnt
    show ?thesis by simp
  qed
qed

lemma schedule_length:
  "schedule isSafeCloseError env sched (w, cs) = (w1, cs1) \<Longrightarrow> length cs1 = length cs"
proof (induction sched arbitrary: w cs)
  case Nil
  then show ?case by simp
next
  case (Cons i sched)
  show ?case
  proof (cases "i < length cs")
    case False
    with Cons show ?thesis by simp
  next
    case True
    obtain w2 c2 where s: "step_caller isSafeCloseError env w (cs ! i) = (w2, c2)"
      by (cases "step_caller isSafeCloseError env w (cs ! i)")
    with Cons.prems True have "schedule isSafeCloseError env sched (w2, cs[i := c2]) = (w1, cs1)"
      by simp
    from Cons.IH[OF this] show ?thesis by simp
  qed
qed

lemma settled_no_steps: "list_all is_settled cs \<Longrightarrow> sum_list (map (steps_left b) cs) = 0"
proof (induction cs)
  case Nil
  then show ?case by simp
next
  case (Cons c cs)
  then show ?case by (cases c) simp_all
qed

lemma concurrent_first_step:
  assumes "close_actions hook harRecorders = b # rest" and "b \<notin> set rest"
    and "schedule isSafeCloseError env sched (w, concurrent_close n hook harRecorders) = (w1, cs1)"
    and "list_all is_settled cs1"
  shows "length cs1 = n \<and> count_list (trace w1) b = count_list (trace w) b + n"
proof -
  have a: "list_all (only_at_head b) (concurrent_close n hook harRecorders)"
    using assms(1,2) by (simp add: concurrent_close_def list_all_iff)
  have "steps_left b (Running (close_actions hook harRecorders)) = 1"
    using assms(1,2) by (simp add: count_list_0_iff)
  then have b: "sum_list (map (steps_left b) (concurrent_close n hook harRecorders)) = n"
    by (simp add: concurrent_close_def sum_list_replicate)
  from schedule_count[OF a assms(3)] settled_no_steps[OF assms(4)] b
  show ?thesis by (simp add: concurrent_close_def)
qed

lemma export_in_har_actions: "HarExport i \<in> set (har_actions (j, ps)) \<Longrightarrow> i = j"
  by (auto simp: har_actions_def Let_def split: if_splits)

lemma har_actions_tail:
  "\<exists>rest. har_actions (harId, ps) = HarExport harId # rest \<and> HarExport harId \<notin> set rest"
  by (simp add: har_actions_def Let_def)

lemma two_callers_settle:
  "snd (schedule (\<lambda>e. e = already_closed) closes_once [0, 1, 0, 1, 0, 0]
          (new_world, concurrent_close 2 True [])) = [Settled Returned, Settled Returned]"
  by code_simp

lemma two_callers_trace:
  "trace (fst (schedule (\<lambda>e. e = already_closed) closes_once [0, 1, 0, 1, 0, 0]
          (new_world, concurrent_close 2 True []))) =
     [OnWillCloseContext, OnWillCloseContext, ChannelClose, ChannelClose, AwaitClosed]"
  by code_simp

text \<open>
  Claim C1, amended. \<open>close\<close> has no guard against a second call: each of \<open>n\<close> concurrent
  calls runs the teardown sequence itself. Under every interleaving and whatever the
  collaborators answer, once all \<open>n\<close> calls have settled the first step of the sequence
  has been taken \<open>n\<close> times, once per call: the pre-close hook when the browser type has one,
  otherwise the export of the first recording (its id being that of no other recorder), or the
  close request when there is no recorder.
\<close>

theorem concurrent_close_runs_teardown_per_call:
  assumes "schedule isSafeCloseError env sched (w, concurrent_close n hook harRecorders) = (w1, cs1)"
    and "list_all is_settled cs1"
  shows "length cs1 = n \<and>
         (hook \<longrightarrow>
            count_list (trace w1) OnWillCloseContext = count_list (trace w) OnWillCloseContext + n) \<and>
         (\<not> hook \<and> harRecorders = [] \<longrightarrow>
            count_list (trace w1) ChannelClose = count_list (trace w) ChannelClose + n) \<and>
         (\<not> hook \<and> harRecorders = (harId, harParams) # others \<and> harId \<notin> fst ` set others \<longrightarrow>
            count_list (trace w1) (HarExport harId) = count_list (trace w) (HarExport harId) + n)"
proof (intro conjI impI)
  show "length cs1 = n"
    using schedule_length[OF assms(1)] by (simp add: concurrent_close_def)
next
  assume hook
  then have "close_actions hook harRecorders =
      OnWillCloseContext # (concat (map har_actions harRecorders) @ [ChannelClose, AwaitClosed])"
    by (simp add: close_actions_def)
  moreover have "OnWillCloseContext \<notin> set (concat (map har_actions harRecorders) @ [ChannelClose, AwaitClosed])"
    by (simp add: hook_not_in_har_actions)
  ultimately show "count_list (trace w1) OnWillCloseContext = count_list (trace w) OnWillCloseContext + n"
    using concurrent_first_step[OF _ _ assms] by blast
next
  assume "\<not> hook \<and> harRecorders = []"
  then have "close_actions hook harRecorders = ChannelClose # [AwaitClosed]"
    by (simp add: close_actions_def)
  from concurrent_first_step[OF this _ assms]
  show "count_list (trace w1) ChannelClose = count_list (trace w) ChannelClose + n" by simp
next
  assume a: "\<not> hook \<and> harRecorders = (harId, harParams) # others \<and> harId \<notin> fst ` set others"
  obtain rest where rest: "har_actions (harId, harParams) = HarExport harId # rest"
    "HarExport harId \<notin> set rest" using har_actions_tail by blast
  have "close_actions hook harRecorders =
      HarExport harId # (rest @ concat (map har_actions others) @ [ChannelClose, AwaitClosed])"
    using a rest by (simp add: close_actions_def)
  moreover have "HarExport harId \<notin> set (rest @ concat (map har_actions others) @ [ChannelClose, AwaitClosed])"
    using a rest(2) by (force dest: export_in_har_actions)
  ultimately show "count_list (trace w1) (HarExport harId) = count_list (trace w) (HarExport harId) + n"
    using concurrent_first_step[OF _ _ assms] by blast
qed

theorem concurrent_close_runs_teardown_per_call_witness:
  "list_all is_settled
     (snd (schedule (\<lambda>e. e = already_closed) closes_once [0, 1, 0, 1, 0, 0]
             (new_world, concurrent_close 2 True []))) \<and>
   count_list
     (trace (fst (schedule (\<lambda>e. e = already_closed) closes_once [0, 1, 0, 1, 0, 0]
                    (new_world, concurrent_close 2 True []))))
     OnWillCloseContext = 2"
proof -
  obtain w1 cs1 where s: "schedule (\<lambda>e. e = already_closed) closes_once [0, 1, 0, 1, 0, 0]
          (new_world, concurrent_close 2 True []) = (w1, cs1)"
    by (cases "schedule (\<lambda>e. e = already_closed) closes_once [0, 1, 0, 1, 0, 0]
          (new_world, concurrent_close 2 True [])")
  have a: "list_all is_settled cs1" using two_callers_settle s by simp
  from concurrent_close_runs_teardown_per_call[OF s a] a s show ?thesis
    by (simp add: new_world_def)
qed

text \<open>
  The claim as stated has a single teardown for any number of concurrent calls: two
  interleaved calls on a context without recorders, against a server that answers the second
  close request with an error \<open>isSafeCloseError\<close> accepts, both return normally after the hook
  has run twice and the close request has been sent twice.
\<close>

theorem concurrent_close_once_counterexample:
  "snd (schedule (\<lambda>e. e = already_closed) closes_once [0, 1, 0, 1, 0, 0]
          (new_world, concurrent_close 2 True [])) = [Settled Returned, Settled Returned] \<and>
   count_list
     (trace (fst (schedule (\<lambda>e. e = already_closed) closes_once [0, 1, 0, 1, 0, 0]
                    (new_world, concurrent_close 2 True []))))
     OnWillCloseContext = 2 \<and>
   count_list
     (trace (fst (schedule (\<lambda>e. e = already_closed) closes_once [0, 1, 0, 1, 0, 0]
                    (new_world, concurrent_close 2 True []))))
     ChannelClose = 2"
  using two_callers_settle two_callers_trace by simp

end
